theory Spec2Isabelle
  imports Complex_Main "HOL-Library.Word"
begin

section \<open>Request lifecycle and post-step bookkeeping of the serving engine\<close>

text \<open>
  A shallow embedding of \<^verbatim>\<open>cpp/serve/engine_actions/action_commons.cc\<close> over the data
  of \<^verbatim>\<open>cpp/serve/request_state.h\<close>.

  Conventions of the embedding.
  \<^item> The C++ objects are reference counted and mutated in place. The embedding passes the
    engine state explicitly and returns it updated. A request state entry that the C++ code
    holds by reference is addressed by the key of its request state in \<open>request_states\<close>
    and its index in \<open>entries\<close>.
  \<^item> \<^verbatim>\<open>int64_t\<close>, \<^verbatim>\<open>int\<close> and \<^verbatim>\<open>size_t\<close> values (sequence ids, indices, lengths,
    counters, clock readings in nanoseconds) are unbounded integers. The source
    adds and subtracts lengths of vectors and small counters only, which stay far from the
    bounds of these types for vectors that fit in memory; a negative index is an
    out-of-range index.
  \<^item> Token ids are data, not counters. The ids of a \<^verbatim>\<open>TokenData\<close> block are the
    \<^verbatim>\<open>int64_t\<close> elements of an \<^verbatim>\<open>IntTuple\<close>, the id of a sample is an
    \<^verbatim>\<open>int32_t\<close>. Both are integers here. A sampled id is only ever widened or copied
    at its own width (lines 128, 252, 263), which keeps its value. The one place where the
    source copies the ids of a block into a narrower type is line 261, and there the
    embedding narrows them (\<open>narrow_to_int\<close>).
  \<^item> Fields keep their names, except where a name would hide a constant or a variable:
    \<^verbatim>\<open>Request::id\<close> is \<open>req_id\<close>, \<^verbatim>\<open>Request::inputs\<close> is \<open>req_inputs\<close>,
    \<^verbatim>\<open>GenerationConfig::n\<close> is \<open>cfg_n\<close>, \<^verbatim>\<open>RequestStreamOutput::request_id\<close> is
    \<open>out_request_id\<close>.
  \<^item> A failed \<^verbatim>\<open>ICHECK\<close>, a null pointer dereference and an out-of-range index are
    values of the type \<open>error\<close>; a function that can fail returns \<open>error + result\<close>.
  \<^item> The two time totals of the statistics are \<^verbatim>\<open>double\<close> in the source; the
    embedding accumulates them as real numbers (seconds), without rounding.
  \<^item> Event tracing (\<^verbatim>\<open>RECORD_EVENT\<close>) and NVTX ranges have no effect on the engine state
    and are left out.
\<close>

subsection \<open>Data model\<close>

datatype error = CheckFailed | NullDereference | OutOfRange

text \<open>
  Modelled from the spec: the variants of \<^verbatim>\<open>Data\<close> are declared in \<^verbatim>\<open>data.h\<close>,
  which is not part of the sources at hand. A block is a \<open>TokenData\<close> with its token ids,
  or a block of another modality (image, audio) of which only the length is visible.
\<close>

datatype Data = TokenData (token_ids: "int list") | ImageData nat | AudioData nat

fun GetLength :: "Data \<Rightarrow> int" where
  "GetLength (TokenData ids) = int (length ids)"
| "GetLength (ImageData len) = int len"
| "GetLength (AudioData len) = int len"

text \<open>The probability of a sample is a \<^verbatim>\<open>float\<close>: its 32 bits are carried along unread.\<close>

type_synonym float32 = "32 word"

record SampleResult =
  sampled_token_id :: "int \<times> float32"
  top_logprobs :: "(int \<times> float32) list"

record DebugConfig =
  pinned_system_prompt :: bool

record GenerationConfig =
  cfg_n :: int
  logprobs :: int
  debug_config :: "DebugConfig option"

record Request =
  req_id :: string
  req_inputs :: "Data list"
  generation_cfg :: GenerationConfig

text \<open>
  \<^verbatim>\<open>RequestModelStateNode\<close>. The back pointer \<^verbatim>\<open>request\<close> and the grammar matcher are
  not read by the functions below and are left out.
\<close>

record RequestModelState =
  internal_id :: int
  model_id :: int
  committed_tokens :: "SampleResult list"
  inputs :: "Data list"
  prefilled_inputs :: "Data list"
  cached_committed_tokens :: int
  num_prefilled_tokens :: int
  draft_output_tokens :: "SampleResult list"
  draft_token_slots :: "int list"
  appeared_token_ids :: "int \<rightharpoonup> int"

datatype RequestStateStatus = kPending | kAlive | kFinished

text \<open>
  \<^verbatim>\<open>RequestStateEntryNode\<close>. The random generator and the stop string handler are opaque
  to the functions below; their states are natural numbers here.
\<close>

record RequestStateEntry =
  status :: RequestStateStatus
  request :: Request
  parent_idx :: int
  child_indices :: "int list"
  mstates :: "RequestModelState list"
  rng :: nat
  stop_str_handler :: nat
  next_callback_token_pos :: int
  tadd :: int
  tprefill_finish :: int

record RequestState =
  entries :: "RequestStateEntry list"

record DeltaRequestReturn =
  delta_token_ids :: "int list"
  delta_logprob_json_strs :: "string list"
  finish_reason :: "string option"

record RequestStreamOutput =
  out_request_id :: string
  group_delta_token_ids :: "int list list"
  group_delta_logprob_json_strs :: "string list list option"
  group_finish_reason :: "string option list"

subsection \<open>External collaborators\<close>

text \<open>
  Modelled from the spec: the ID manager (\<^verbatim>\<open>estate->id_manager\<close>) is not part of the
  sources at hand. Allocation is monotonic with reuse from a free pool: \<open>GetNewId\<close> takes
  the id recycled last when the pool is not empty and the next value of the counter
  otherwise; \<open>RecycleId\<close> returns an id to the pool.
\<close>

record EngineInternalIDManager =
  available_ids :: "int list"
  id_cnt :: int

definition GetNewId :: "EngineInternalIDManager \<Rightarrow> int \<times> EngineInternalIDManager" where
  "GetNewId m =
     (if available_ids m \<noteq> []
      then (last (available_ids m), m\<lparr>available_ids := butlast (available_ids m)\<rparr>)
      else (id_cnt m, m\<lparr>id_cnt := id_cnt m + 1\<rparr>))"

definition RecycleId :: "int \<Rightarrow> EngineInternalIDManager \<Rightarrow> EngineInternalIDManager" where
  "RecycleId i m = m\<lparr>available_ids := available_ids m @ [i]\<rparr>"

text \<open>
  Modelled from the spec: the prefix cache (\<^verbatim>\<open>estate->prefix_cache\<close>) is not part of the
  sources at hand. It holds a token sequence for each sequence id it manages.
  \<open>ExtendSequence\<close> appends tokens to a held sequence. \<open>RecycleSequence\<close> with
  \<open>lazy = False\<close> releases the sequence and invalidates the id at once; with
  \<open>lazy = True\<close> it marks the sequence reclaimable and keeps its tokens.
  \<open>RecycleSequence\<close> is the effect of the call on the prefix cache itself; its effect on
  the KV caches of the models is \<open>RecycledSlots\<close> below.
\<close>

record PrefixCache =
  pc_sequences :: "int \<rightharpoonup> int list"
  pc_recycling :: "int set"

definition HasSequence :: "PrefixCache \<Rightarrow> int \<Rightarrow> bool" where
  "HasSequence pc seq_id \<longleftrightarrow> pc_sequences pc seq_id \<noteq> None"

definition ExtendSequence :: "int \<Rightarrow> int list \<Rightarrow> PrefixCache \<Rightarrow> PrefixCache" where
  "ExtendSequence seq_id tokens pc =
     (case pc_sequences pc seq_id of
        None \<Rightarrow> pc
      | Some held \<Rightarrow> pc\<lparr>pc_sequences := (pc_sequences pc)(seq_id \<mapsto> held @ tokens)\<rparr>)"

definition RecycleSequence :: "int \<Rightarrow> bool \<Rightarrow> PrefixCache \<Rightarrow> PrefixCache" where
  "RecycleSequence seq_id lazy pc =
     (if lazy then pc\<lparr>pc_recycling := insert seq_id (pc_recycling pc)\<rparr>
      else pc\<lparr>pc_sequences := (pc_sequences pc)(seq_id := None),
               pc_recycling := pc_recycling pc - {seq_id}\<rparr>)"

text \<open>
  Modelled from the spec: a model handle (\<^verbatim>\<open>Model\<close>) is not part of the sources at hand.
  Of its KV cache the embedding keeps the set of ids of the sequences resident in it.
\<close>

record Model =
  kv_sequences :: "int set"

definition RemoveSequence :: "int \<Rightarrow> Model \<Rightarrow> Model" where
  "RemoveSequence seq_id model = model\<lparr>kv_sequences := kv_sequences model - {seq_id}\<rparr>"

text \<open>
  Modelled from the spec: the slots of a sequence that the prefix cache holds are slots of
  the KV caches of the models. \<^verbatim>\<open>RecycleSequence\<close> with \<open>lazy = False\<close> releases
  them at once, in every model; with \<open>lazy = True\<close> they stay where they are until the
  prefix cache reclaims them.
\<close>

definition RecycledSlots :: "int \<Rightarrow> bool \<Rightarrow> Model list \<Rightarrow> Model list" where
  "RecycledSlots seq_id lazy models =
     (if lazy then models else map (RemoveSequence seq_id) models)"

text \<open>
  Modelled from the spec: the draft token workspace is a pool of slots; \<open>FreeSlots\<close>
  returns slots to it.
\<close>

record DraftTokenWorkspaceManager =
  free_slots :: "int list"

definition FreeSlots :: "int list \<Rightarrow> DraftTokenWorkspaceManager \<Rightarrow> DraftTokenWorkspaceManager" where
  "FreeSlots slots w = w\<lparr>free_slots := free_slots w @ slots\<rparr>"

subsection \<open>Engine state\<close>

record EngineStats =
  total_prefill_length :: int
  total_decode_length :: int
  request_total_prefill_time :: real
  request_total_decode_time :: real

record EngineState =
  running_queue :: "Request list"
  waiting_queue :: "Request list"
  request_states :: "string \<rightharpoonup> RequestState"
  id_manager :: EngineInternalIDManager
  prefix_cache :: PrefixCache
  stats :: EngineStats

text \<open>
  Modelled from the spec: \<^verbatim>\<open>EngineState::GetRequestState\<close> is not part of the sources at
  hand. It looks the request up in \<open>request_states\<close> by its id and fails a check when
  there is no state for it.
\<close>

definition GetRequestState :: "EngineState \<Rightarrow> Request \<Rightarrow> error + RequestState" where
  "GetRequestState estate req =
     (case request_states estate (req_id req) of
        None \<Rightarrow> Inl CheckFailed
      | Some rstate \<Rightarrow> Inr rstate)"

subsection \<open>Releasing one request state entry\<close>

text \<open>
  \<^verbatim>\<open>RemoveRequestFromModel\<close>: the sequence is removed from every model. The source
  passes the engine state too and does not use it.
\<close>

definition RemoveRequestFromModel :: "int \<Rightarrow> Model list \<Rightarrow> Model list" where
  "RemoveRequestFromModel req_internal_id models = map (RemoveSequence req_internal_id) models"

text \<open>The condition of lines 30 and 31: the debug configuration is there and pins the prompt.\<close>

definition is_pinned :: "Request \<Rightarrow> bool" where
  "is_pinned req =
     (case debug_config (generation_cfg req) of
        None \<Rightarrow> False
      | Some d \<Rightarrow> pinned_system_prompt d)"

definition RemoveRequestStateEntry ::
  "EngineState \<Rightarrow> Model list \<Rightarrow> RequestStateEntry \<Rightarrow> error + EngineState \<times> Model list" where
  "RemoveRequestStateEntry estate models rsentry =
     (case mstates rsentry of
        [] \<Rightarrow> Inl OutOfRange
      | mstate0 # _ \<Rightarrow>
          if HasSequence (prefix_cache estate) (internal_id mstate0) then
            if \<not> is_pinned (request rsentry)
            then Inr (estate\<lparr>prefix_cache :=
                        RecycleSequence (internal_id mstate0) True (prefix_cache estate)\<rparr>,
                      RecycledSlots (internal_id mstate0) True models)
            else Inr (estate, models)
          else
            Inr (estate\<lparr>id_manager := RecycleId (internal_id mstate0) (id_manager estate)\<rparr>,
                 RemoveRequestFromModel (internal_id mstate0) models))"


subsection \<open>Announcing prefilled and committed tokens to the prefix cache\<close>

text \<open>
  The loop over \<open>prefilled_inputs\<close> of \<^verbatim>\<open>UpdatePrefixCache\<close>. For a block that is not
  a \<open>TokenData\<close> the cast \<^verbatim>\<open>data.as<TokenDataNode>()\<close> yields a null pointer, which the
  next statement dereferences.
\<close>

fun ExtendPrefilled :: "int \<Rightarrow> Data list \<Rightarrow> PrefixCache \<Rightarrow> error + PrefixCache" where
  "ExtendPrefilled seq_id [] pc = Inr pc"
| "ExtendPrefilled seq_id (TokenData ids # rest) pc =
     ExtendPrefilled seq_id rest (ExtendSequence seq_id ids pc)"
| "ExtendPrefilled seq_id (ImageData len # rest) pc = Inl NullDereference"
| "ExtendPrefilled seq_id (AudioData len # rest) pc = Inl NullDereference"

text \<open>
  The committed token ids at the positions from the watermark up to, and without, the last
  position: the vector \<open>tokens\<close> built by the inner loop.
\<close>

definition UncachedCommitted :: "RequestModelState \<Rightarrow> int list" where
  "UncachedCommitted mstate =
     map (\<lambda>i. fst (sampled_token_id (committed_tokens mstate ! i)))
       [nat (cached_committed_tokens mstate) ..< length (committed_tokens mstate) - 1]"

definition NotifyPrefilled ::
  "PrefixCache \<Rightarrow> RequestModelState \<Rightarrow> error + PrefixCache \<times> RequestModelState" where
  "NotifyPrefilled pc mstate0 =
     (if prefilled_inputs mstate0 \<noteq> [] then
        (case ExtendPrefilled (internal_id mstate0) (prefilled_inputs mstate0) pc of
           Inl e \<Rightarrow> Inl e
         | Inr pc1 \<Rightarrow> Inr (pc1, mstate0\<lparr>prefilled_inputs := []\<rparr>))
      else Inr (pc, mstate0))"

definition NotifyCommitted ::
  "PrefixCache \<Rightarrow> RequestModelState \<Rightarrow> error + PrefixCache \<times> RequestModelState" where
  "NotifyCommitted pc mstate0 =
     (if cached_committed_tokens mstate0 < int (length (committed_tokens mstate0)) - 1 then
        if cached_committed_tokens mstate0 < 0 then Inl OutOfRange
        else Inr (ExtendSequence (internal_id mstate0) (UncachedCommitted mstate0) pc,
                  mstate0\<lparr>cached_committed_tokens := int (length (committed_tokens mstate0)) - 1\<rparr>)
      else Inr (pc, mstate0))"

text \<open>The body of the loop over the entries of one request state.\<close>

definition UpdatePrefixCacheEntry ::
  "PrefixCache \<Rightarrow> RequestStateEntry \<Rightarrow> error + PrefixCache \<times> RequestStateEntry" where
  "UpdatePrefixCacheEntry pc rsentry =
     (case mstates rsentry of
        [] \<Rightarrow> Inl OutOfRange
      | mstate0 # others \<Rightarrow>
          if HasSequence pc (internal_id mstate0) then
            (case NotifyPrefilled pc mstate0 of
               Inl e \<Rightarrow> Inl e
             | Inr (pc1, mstate1) \<Rightarrow>
                 (case NotifyCommitted pc1 mstate1 of
                    Inl e \<Rightarrow> Inl e
                  | Inr (pc2, mstate2) \<Rightarrow> Inr (pc2, rsentry\<lparr>mstates := mstate2 # others\<rparr>)))
          else Inr (pc, rsentry))"

fun UpdatePrefixCacheEntries ::
  "PrefixCache \<Rightarrow> RequestStateEntry list \<Rightarrow> error + PrefixCache \<times> RequestStateEntry list" where
  "UpdatePrefixCacheEntries pc [] = Inr (pc, [])"
| "UpdatePrefixCacheEntries pc (rsentry # rest) =
     (case UpdatePrefixCacheEntry pc rsentry of
        Inl e \<Rightarrow> Inl e
      | Inr (pc1, rsentry1) \<Rightarrow>
          (case UpdatePrefixCacheEntries pc1 rest of
             Inl e \<Rightarrow> Inl e
           | Inr (pc2, rest1) \<Rightarrow> Inr (pc2, rsentry1 # rest1)))"

fun UpdatePrefixCache :: "Request list \<Rightarrow> EngineState \<Rightarrow> error + EngineState" where
  "UpdatePrefixCache [] estate = Inr estate"
| "UpdatePrefixCache (req # requests) estate =
     (case GetRequestState estate req of
        Inl e \<Rightarrow> Inl e
      | Inr rstate \<Rightarrow>
          (case UpdatePrefixCacheEntries (prefix_cache estate) (entries rstate) of
             Inl e \<Rightarrow> Inl e
           | Inr (pc1, es1) \<Rightarrow>
               UpdatePrefixCache requests
                 (estate\<lparr>prefix_cache := pc1,
                         request_states :=
                           (request_states estate)(req_id req \<mapsto> rstate\<lparr>entries := es1\<rparr>)\<rparr>)))"

subsection \<open>Finalising finished entries\<close>

text \<open>The inner loop over the children of a parent entry, with its \<^verbatim>\<open>break\<close>.\<close>

fun AllChildrenFinished :: "RequestStateEntry list \<Rightarrow> int list \<Rightarrow> error + bool" where
  "AllChildrenFinished es [] = Inr True"
| "AllChildrenFinished es (child_idx # rest) =
     (if child_idx < 0 \<or> int (length es) \<le> child_idx then Inl OutOfRange
      else if status (es ! nat child_idx) \<noteq> kFinished then Inr False
      else AllChildrenFinished es rest)"

text \<open>
  The \<^verbatim>\<open>while (parent_idx != -1)\<close> loop. The source gives no bound for it, so the embedding
  takes fuel: one unit for each turn of the loop, and \<open>None\<close> when the fuel runs out
  before the loop ends. \<open>es\<close> are the entries of \<^verbatim>\<open>rstate\<close>.
\<close>

fun ClimbFinished ::
  "nat \<Rightarrow> int \<Rightarrow> RequestStateEntry list \<Rightarrow> EngineState \<Rightarrow> Model list \<Rightarrow>
   (error + int \<times> RequestStateEntry list \<times> EngineState \<times> Model list) option" where
  "ClimbFinished 0 parent es estate models =
     (if parent = -1 then Some (Inr (parent, es, estate, models)) else None)"
| "ClimbFinished (Suc fuel) parent es estate models =
     (if parent = -1 then Some (Inr (parent, es, estate, models))
      else if parent < 0 \<or> int (length es) \<le> parent then Some (Inl OutOfRange)
      else
        (case AllChildrenFinished es (child_indices (es ! nat parent)) of
           Inl e \<Rightarrow> Some (Inl e)
         | Inr False \<Rightarrow> Some (Inr (parent, es, estate, models))
         | Inr True \<Rightarrow>
             (let es1 = es[nat parent := (es ! nat parent)\<lparr>status := kFinished\<rparr>] in
              case RemoveRequestStateEntry estate models (es1 ! nat parent) of
                Inl e \<Rightarrow> Some (Inl e)
              | Inr (estate1, models1) \<Rightarrow>
                  ClimbFinished fuel (parent_idx (es1 ! nat parent)) es1 estate1 models1)))"

text \<open>
  Lines 49 to 78 for one finished entry, given by the key of the request state that holds
  it and its index there. The result is the final \<open>parent_idx\<close>, the request of the entry,
  the entries of \<^verbatim>\<open>rstate\<close> after the climb, and the engine state and the models, where
  the engine state holds the entries after the climb.

  The key is the id of the request from whose state \<^verbatim>\<open>ActionStepPostProcess\<close> took the
  entry. When an earlier turn of the loop has erased that state, the source fails the check
  of \<^verbatim>\<open>GetRequestState\<close> after it has released the entry; the embedding fails at once.
\<close>

definition FinishAndClimb ::
  "nat \<Rightarrow> string \<times> nat \<Rightarrow> EngineState \<Rightarrow> Model list \<Rightarrow>
   (error + int \<times> Request \<times> RequestStateEntry list \<times> EngineState \<times> Model list) option" where
  "FinishAndClimb fuel ref estate models =
     (case request_states estate (fst ref) of
        None \<Rightarrow> Some (Inl CheckFailed)
      | Some holder \<Rightarrow>
          if length (entries holder) \<le> snd ref then Some (Inl OutOfRange)
          else if child_indices (entries holder ! snd ref) \<noteq> [] then Some (Inl CheckFailed)
          else
            (let rsentry = (entries holder ! snd ref)\<lparr>status := kFinished\<rparr>;
                 estate1 = estate\<lparr>request_states := (request_states estate)
                             (fst ref \<mapsto> holder\<lparr>entries := (entries holder)[snd ref := rsentry]\<rparr>)\<rparr>
             in case RemoveRequestStateEntry estate1 models rsentry of
                  Inl e \<Rightarrow> Some (Inl e)
                | Inr (estate2, models2) \<Rightarrow>
                    (case GetRequestState estate2 (request rsentry) of
                       Inl e \<Rightarrow> Some (Inl e)
                     | Inr rstate \<Rightarrow>
                         (case ClimbFinished fuel (parent_idx rsentry) (entries rstate)
                                 estate2 models2 of
                            None \<Rightarrow> None
                          | Some (Inl e) \<Rightarrow> Some (Inl e)
                          | Some (Inr (parent, es, estate3, models3)) \<Rightarrow>
                              Some (Inr (parent, request rsentry, es,
                                estate3\<lparr>request_states := (request_states estate3)
                                  (req_id (request rsentry) \<mapsto> rstate\<lparr>entries := es\<rparr>)\<rparr>,
                                models3))))))"

text \<open>The loop of lines 95 to 97: the committed tokens of all entries, on the first model.\<close>

fun SumCommitted :: "RequestStateEntry list \<Rightarrow> error + int" where
  "SumCommitted [] = Inr 0"
| "SumCommitted (entry # rest) =
     (case mstates entry of
        [] \<Rightarrow> Inl OutOfRange
      | mstate0 # _ \<Rightarrow>
          (case SumCommitted rest of
             Inl e \<Rightarrow> Inl e
           | Inr len \<Rightarrow> Inr (int (length (committed_tokens mstate0)) + len)))"

text \<open>
  Lines 80 to 101, taken when the climb has passed the root. \<open>trequest_finish\<close> is the
  reading of the clock, in nanoseconds.
\<close>

definition RetireRequest ::
  "int \<Rightarrow> Request \<Rightarrow> RequestStateEntry list \<Rightarrow> EngineState \<Rightarrow> error + EngineState" where
  "RetireRequest trequest_finish req es estate =
     (if req \<notin> set (running_queue estate) then Inl CheckFailed
      else
        (case es of
           [] \<Rightarrow> Inl OutOfRange
         | root_rsentry # _ \<Rightarrow>
             (case SumCommitted es of
                Inl e \<Rightarrow> Inl e
              | Inr len \<Rightarrow>
                  Inr (estate\<lparr>
                    running_queue := remove1 req (running_queue estate),
                    request_states := (request_states estate)(req_id req := None),
                    stats := (stats estate)\<lparr>
                      request_total_prefill_time :=
                        request_total_prefill_time (stats estate) +
                        real_of_int (tprefill_finish root_rsentry - tadd root_rsentry) / 1000000000,
                      request_total_decode_time :=
                        request_total_decode_time (stats estate) +
                        real_of_int (trequest_finish - tprefill_finish root_rsentry) / 1000000000,
                      total_decode_length :=
                        total_decode_length (stats estate) + len - cfg_n (generation_cfg req)
                    \<rparr>\<rparr>))))"

text \<open>
  \<^verbatim>\<open>ProcessFinishedRequestStateEntries\<close>. \<open>clock k\<close> is the reading of the clock while the
  entry at position \<open>k\<close> of the list is processed. The parameter
  \<^verbatim>\<open>max_single_sequence_length\<close> is not used by the source.
\<close>

fun ProcessFinishedRequestStateEntries ::
  "nat \<Rightarrow> (nat \<Rightarrow> int) \<Rightarrow> (string \<times> nat) list \<Rightarrow> EngineState \<Rightarrow> Model list \<Rightarrow>
   (error + EngineState \<times> Model list) option" where
  "ProcessFinishedRequestStateEntries fuel clock [] estate models = Some (Inr (estate, models))"
| "ProcessFinishedRequestStateEntries fuel clock (ref # refs) estate models =
     (case FinishAndClimb fuel ref estate models of
        None \<Rightarrow> None
      | Some (Inl e) \<Rightarrow> Some (Inl e)
      | Some (Inr (parent, req, es, estate1, models1)) \<Rightarrow>
          if parent = -1 then
            (case RetireRequest (clock 0) req es estate1 of
               Inl e \<Rightarrow> Some (Inl e)
             | Inr estate2 \<Rightarrow>
                 ProcessFinishedRequestStateEntries fuel (\<lambda>k. clock (Suc k)) refs estate2 models1)
          else
            ProcessFinishedRequestStateEntries fuel (\<lambda>k. clock (Suc k)) refs estate1 models1)"


subsection \<open>The post-processing of one engine step\<close>

text \<open>The pass of lines 151 to 160 over \<open>prefilled_inputs\<close>, for the statistics.\<close>

fun CountPrefilledEntries :: "RequestStateEntry list \<Rightarrow> int \<Rightarrow> error + int" where
  "CountPrefilledEntries [] len = Inr len"
| "CountPrefilledEntries (rsentry # rest) len =
     (case mstates rsentry of
        [] \<Rightarrow> Inl OutOfRange
      | mstate0 # _ \<Rightarrow>
          CountPrefilledEntries rest (len + sum_list (map GetLength (prefilled_inputs mstate0))))"

fun CountPrefilled :: "Request list \<Rightarrow> EngineState \<Rightarrow> error + EngineState" where
  "CountPrefilled [] estate = Inr estate"
| "CountPrefilled (req # requests) estate =
     (case GetRequestState estate req of
        Inl e \<Rightarrow> Inl e
      | Inr rstate \<Rightarrow>
          (case CountPrefilledEntries (entries rstate) (total_prefill_length (stats estate)) of
             Inl e \<Rightarrow> Inl e
           | Inr len \<Rightarrow>
               CountPrefilled requests
                 (estate\<lparr>stats := (stats estate)\<lparr>total_prefill_length := len\<rparr>\<rparr>)))"

text \<open>
  \<^verbatim>\<open>RequestStateEntryNode::GetReturnTokenIds\<close> is declared in the header and defined
  elsewhere. It is a parameter \<open>grt\<close> of the embedding: from the maximum sequence length
  and an entry it gives the \<open>DeltaRequestReturn\<close> and the entry as the call leaves it.

  The index of the entry of generation \<open>i\<close> of a request with \<open>n\<close> generations.
\<close>

definition generation_entry :: "int \<Rightarrow> nat \<Rightarrow> nat" where
  "generation_entry n i = (if n = 1 then 0 else i + 1)"

text \<open>
  The loop of lines 179 to 195 over the generations \<open>is\<close>. The state of the loop is the
  entries of the request state, the three groups, the flag \<open>invoke_callback\<close> and the
  finished entries found, each given by the id of the request and its index.
\<close>

fun CollectGroup ::
  "(int \<Rightarrow> RequestStateEntry \<Rightarrow> DeltaRequestReturn \<times> RequestStateEntry) \<Rightarrow> int \<Rightarrow> string \<Rightarrow>
   int \<Rightarrow> nat list \<Rightarrow>
   RequestStateEntry list \<times> int list list \<times> string list list \<times> string option list \<times> bool \<times>
     (string \<times> nat) list \<Rightarrow>
   error + RequestStateEntry list \<times> int list list \<times> string list list \<times> string option list \<times>
     bool \<times> (string \<times> nat) list" where
  "CollectGroup grt max_len rid n [] acc = Inr acc"
| "CollectGroup grt max_len rid n (i # rest) (es, deltas, strs, reasons, invoke, finished) =
     (if length es \<le> generation_entry n i then Inl OutOfRange
      else
        (let j = generation_entry n i;
             ret = fst (grt max_len (es ! j));
             es1 = es[j := snd (grt max_len (es ! j))]
         in CollectGroup grt max_len rid n rest
              (es1,
               deltas @ [delta_token_ids ret],
               strs @ [delta_logprob_json_strs ret],
               reasons @ [finish_reason ret],
               invoke \<or> finish_reason ret \<noteq> None \<or> delta_token_ids ret \<noteq> [],
               finished @ (if finish_reason ret \<noteq> None then [(rid, j)] else []))))"

text \<open>The body of the loop of lines 168 to 204 for one request.\<close>

definition CollectRequest ::
  "(int \<Rightarrow> RequestStateEntry \<Rightarrow> DeltaRequestReturn \<times> RequestStateEntry) \<Rightarrow> int \<Rightarrow> Request \<Rightarrow>
   EngineState \<Rightarrow> error + RequestStreamOutput option \<times> (string \<times> nat) list \<times> EngineState" where
  "CollectRequest grt max_len req estate =
     (case GetRequestState estate req of
        Inl e \<Rightarrow> Inl e
      | Inr rstate \<Rightarrow>
          (case CollectGroup grt max_len (req_id req) (cfg_n (generation_cfg req))
                  [0 ..< nat (cfg_n (generation_cfg req))]
                  (entries rstate, [], [], [], False, []) of
             Inl e \<Rightarrow> Inl e
           | Inr (es, deltas, strs, reasons, invoke, finished) \<Rightarrow>
               Inr (if invoke
                    then Some \<lparr>out_request_id = req_id req,
                               group_delta_token_ids = deltas,
                               group_delta_logprob_json_strs =
                                 (if logprobs (generation_cfg req) > 0 then Some strs else None),
                               group_finish_reason = reasons\<rparr>
                    else None,
                    finished,
                    estate\<lparr>request_states :=
                      (request_states estate)(req_id req \<mapsto> rstate\<lparr>entries := es\<rparr>)\<rparr>)))"

fun CollectDeltas ::
  "(int \<Rightarrow> RequestStateEntry \<Rightarrow> DeltaRequestReturn \<times> RequestStateEntry) \<Rightarrow> int \<Rightarrow> Request list \<Rightarrow>
   EngineState \<Rightarrow> error + RequestStreamOutput list \<times> (string \<times> nat) list \<times> EngineState" where
  "CollectDeltas grt max_len [] estate = Inr ([], [], estate)"
| "CollectDeltas grt max_len (req # requests) estate =
     (case CollectRequest grt max_len req estate of
        Inl e \<Rightarrow> Inl e
      | Inr (out, finished, estate1) \<Rightarrow>
          (case CollectDeltas grt max_len requests estate1 of
             Inl e \<Rightarrow> Inl e
           | Inr (outs, finished1, estate2) \<Rightarrow>
               Inr ((case out of None \<Rightarrow> [] | Some output \<Rightarrow> [output]) @ outs,
                    finished @ finished1, estate2)))"

text \<open>
  \<^verbatim>\<open>ActionStepPostProcess\<close>. The stream callback is a parameter of the source, and what
  it does lies outside the engine. The embedding gives it a state of its own, the
  \<open>world\<close>, of any type: the call of line 209 is the application of
  \<open>request_stream_callback\<close> to the batch, to the engine state and the models as they
  are at the moment of the call, and to the world, and yields the world after the call.
  The callback cannot change the engine state or the models, but it runs while they are in
  this state. The result is the world together with the outcome for the engine; the world
  is returned in every case, so that a failure of
  \<^verbatim>\<open>ProcessFinishedRequestStateEntries\<close>, which comes after the call, does not undo it.
\<close>

definition ActionStepPostProcess ::
  "(int \<Rightarrow> RequestStateEntry \<Rightarrow> DeltaRequestReturn \<times> RequestStateEntry) \<Rightarrow>
   (RequestStreamOutput list \<Rightarrow> EngineState \<Rightarrow> Model list \<Rightarrow> 'w \<Rightarrow> 'w) \<Rightarrow> nat \<Rightarrow> (nat \<Rightarrow> int) \<Rightarrow>
   Request list \<Rightarrow> EngineState \<Rightarrow> Model list \<Rightarrow> int \<Rightarrow> 'w \<Rightarrow>
   'w \<times> (error + EngineState \<times> Model list) option" where
  "ActionStepPostProcess grt request_stream_callback fuel clock requests estate models
       max_single_sequence_length world =
     (case CountPrefilled requests estate of
        Inl e \<Rightarrow> (world, Some (Inl e))
      | Inr estate1 \<Rightarrow>
          (case UpdatePrefixCache requests estate1 of
             Inl e \<Rightarrow> (world, Some (Inl e))
           | Inr estate2 \<Rightarrow>
               (case CollectDeltas grt max_single_sequence_length requests estate2 of
                  Inl e \<Rightarrow> (world, Some (Inl e))
                | Inr (callback_delta_outputs, finished_rsentries, estate3) \<Rightarrow>
                    (request_stream_callback callback_delta_outputs estate3 models world,
                     ProcessFinishedRequestStateEntries fuel clock finished_rsentries
                       estate3 models))))"

subsection \<open>Preemption\<close>

text \<open>
  The loop of lines 226 to 231: the largest index below the bound whose entry is alive,
  and -1 when there is none.
\<close>

fun FindLastAlive :: "RequestStateEntry list \<Rightarrow> nat \<Rightarrow> int" where
  "FindLastAlive es 0 = - 1"
| "FindLastAlive es (Suc i) = (if status (es ! i) = kAlive then int i else FindLastAlive es i)"

text \<open>
  Modelled from the spec: \<^verbatim>\<open>RequestModelStateNode::RemoveAllDraftTokens\<close> is declared in
  the header and defined elsewhere. It removes all draft tokens, the last one first, takes
  each of them out of the counts of \<open>appeared_token_ids\<close>, and hands back the slots of
  this model state (the vector the caller passes is overwritten).
\<close>

definition RemoveAppeared :: "int \<Rightarrow> (int \<rightharpoonup> int) \<Rightarrow> (int \<rightharpoonup> int)" where
  "RemoveAppeared token counts =
     (case counts token of
        None \<Rightarrow> counts
      | Some c \<Rightarrow> if c - 1 = 0 then counts(token := None) else counts(token \<mapsto> c - 1))"

definition RemoveAllDraftTokens :: "RequestModelState \<Rightarrow> int list \<times> RequestModelState" where
  "RemoveAllDraftTokens mstate =
     (draft_token_slots mstate,
      mstate\<lparr>draft_token_slots := [],
             draft_output_tokens := [],
             appeared_token_ids :=
               foldr (\<lambda>draft. RemoveAppeared (fst (sampled_token_id draft)))
                 (draft_output_tokens mstate) (appeared_token_ids mstate)\<rparr>)"

text \<open>
  The conversion of an \<^verbatim>\<open>int64_t\<close> to \<^verbatim>\<open>int\<close> (32 bits, two's complement): the
  value modulo \<open>2 ^ 32\<close>, read as a signed number.
\<close>

definition narrow_to_int :: "int \<Rightarrow> int" where
  "narrow_to_int x = sint (word_of_int x :: 32 word)"

text \<open>
  Lines 256 to 270: the inputs of a preempted entry, for its next prefill. Line 261 copies
  the \<^verbatim>\<open>int64_t\<close> ids of the last block of the request into a \<^verbatim>\<open>std::vector<int>\<close>,
  which narrows each of them; the committed ids, which are \<^verbatim>\<open>int32_t\<close>, are appended
  as they are, and the new block is built from the vector.
\<close>

definition RebuildInputs :: "Request \<Rightarrow> int \<Rightarrow> int list \<Rightarrow> error + Data list" where
  "RebuildInputs req parent committed_token_ids =
     (if parent = - 1 then
        (if req_inputs req = [] then Inl CheckFailed
         else
           (case last (req_inputs req) of
              TokenData ids \<Rightarrow>
                Inr ((req_inputs req)[length (req_inputs req) - 1 :=
                       TokenData (map narrow_to_int ids @ committed_token_ids)])
            | _ \<Rightarrow>
                if committed_token_ids \<noteq> []
                then Inr (req_inputs req @ [TokenData committed_token_ids])
                else Inr (req_inputs req)))
      else if committed_token_ids \<noteq> [] then Inr [TokenData committed_token_ids]
      else Inr [])"

text \<open>The body of the loop of lines 244 to 274 for one model state.\<close>

definition PreemptMState ::
  "Request \<Rightarrow> int \<Rightarrow> DraftTokenWorkspaceManager option \<Rightarrow> RequestModelState \<Rightarrow>
   error + RequestModelState \<times> DraftTokenWorkspaceManager option" where
  "PreemptMState req parent workspace mstate =
     (let cleared =
            (case workspace of
               None \<Rightarrow> (mstate, None)
             | Some w \<Rightarrow>
                 (snd (RemoveAllDraftTokens mstate),
                  Some (FreeSlots (fst (RemoveAllDraftTokens mstate)) w)));
          mstate1 = fst cleared;
          committed_token_ids = map (\<lambda>tok. fst (sampled_token_id tok)) (committed_tokens mstate1)
      in case RebuildInputs req parent committed_token_ids of
           Inl e \<Rightarrow> Inl e
         | Inr new_inputs \<Rightarrow>
             Inr (mstate1\<lparr>num_prefilled_tokens := 0,
                          inputs := new_inputs,
                          prefilled_inputs := [],
                          cached_committed_tokens := 0\<rparr>,
                  snd cleared))"

fun PreemptMStates ::
  "Request \<Rightarrow> int \<Rightarrow> DraftTokenWorkspaceManager option \<Rightarrow> RequestModelState list \<Rightarrow>
   error + RequestModelState list \<times> DraftTokenWorkspaceManager option" where
  "PreemptMStates req parent workspace [] = Inr ([], workspace)"
| "PreemptMStates req parent workspace (mstate # rest) =
     (case PreemptMState req parent workspace mstate of
        Inl e \<Rightarrow> Inl e
      | Inr (mstate1, workspace1) \<Rightarrow>
          (case PreemptMStates req parent workspace1 rest of
             Inl e \<Rightarrow> Inl e
           | Inr (rest1, workspace2) \<Rightarrow> Inr (mstate1 # rest1, workspace2)))"

text \<open>
  \<^verbatim>\<open>PreemptLastRunningRequestStateEntry\<close>. The result is the preempted entry, the engine
  state (whose request state holds the entry as returned), the models and the draft token
  workspace.
\<close>

definition PreemptLastRunningRequestStateEntry ::
  "EngineState \<Rightarrow> Model list \<Rightarrow> DraftTokenWorkspaceManager option \<Rightarrow>
   error + RequestStateEntry \<times> EngineState \<times> Model list \<times> DraftTokenWorkspaceManager option" where
  "PreemptLastRunningRequestStateEntry estate models workspace =
     (if running_queue estate = [] then Inl CheckFailed
      else
        (case GetRequestState estate (last (running_queue estate)) of
           Inl e \<Rightarrow> Inl e
         | Inr rstate \<Rightarrow>
             (let req = last (running_queue estate);
                  preempt_rstate_idx = FindLastAlive (entries rstate) (length (entries rstate))
              in if preempt_rstate_idx = - 1 then Inl CheckFailed
                 else
                   (let rsentry = entries rstate ! nat preempt_rstate_idx
                    in case mstates rsentry of
                         [] \<Rightarrow> Inl OutOfRange
                       | mstate0 # _ \<Rightarrow>
                           (case PreemptMStates req (parent_idx rsentry) workspace
                                   (mstates rsentry) of
                              Inl e \<Rightarrow> Inl e
                            | Inr (mstates1, workspace1) \<Rightarrow>
                                (let partially_alive = (inputs mstate0 \<noteq> []);
                                     old_id = internal_id (mstates1 ! 0);
                                     held = HasSequence (prefix_cache estate) old_id;
                                     new_seq_id = fst (GetNewId (id_manager estate));
                                     rsentry1 = rsentry\<lparr>status := kPending,
                                       mstates := map (\<lambda>m. m\<lparr>internal_id := new_seq_id\<rparr>) mstates1\<rparr>
                                 in Inr (rsentry1,
                                      estate\<lparr>
                                        running_queue :=
                                          (if preempt_rstate_idx = 0
                                           then butlast (running_queue estate)
                                           else running_queue estate),
                                        waiting_queue :=
                                          (if \<not> partially_alive \<and>
                                              preempt_rstate_idx = int (length (entries rstate)) - 1
                                           then req # waiting_queue estate
                                           else waiting_queue estate),
                                        request_states := (request_states estate)
                                          (req_id req \<mapsto> rstate\<lparr>entries :=
                                             (entries rstate)[nat preempt_rstate_idx := rsentry1]\<rparr>),
                                        id_manager := snd (GetNewId (id_manager estate)),
                                        prefix_cache :=
                                          (if held
                                           then RecycleSequence old_id False (prefix_cache estate)
                                           else prefix_cache estate)\<rparr>,
                                      (if held then RecycledSlots old_id False models
                                       else RemoveRequestFromModel old_id models),
                                      workspace1)))))))"


text \<open>
  The inputs of a preempted entry in the words of the specification: for the root entry
  the inputs of the request, with the committed token ids concatenated into the final block
  when that block is a \<open>TokenData\<close>, and appended as a new \<open>TokenData\<close> when they are
  not empty otherwise; for a child entry the committed token ids alone, as a
  \<open>TokenData\<close> when they are not empty. The embedding of the source is \<open>RebuildInputs\<close>.
\<close>

definition spec_preempted_inputs :: "Request \<Rightarrow> int \<Rightarrow> int list \<Rightarrow> Data list" where
  "spec_preempted_inputs req parent committed_token_ids =
     (if parent = - 1 then
        (case last (req_inputs req) of
           TokenData ids \<Rightarrow> butlast (req_inputs req) @ [TokenData (ids @ committed_token_ids)]
         | _ \<Rightarrow> req_inputs req @
                  (if committed_token_ids = [] then [] else [TokenData committed_token_ids]))
      else (if committed_token_ids = [] then [] else [TokenData committed_token_ids]))"

text \<open>
  The specification types token ids as 32-bit integers. \<open>fits_int\<close> says that a block
  keeps to this type: its ids, if it is a \<open>TokenData\<close>, are values of \<^verbatim>\<open>int\<close>.
\<close>

fun fits_int :: "Data \<Rightarrow> bool" where
  "fits_int (TokenData ids) = list_all (\<lambda>x. - (2 ^ 31) \<le> x \<and> x < 2 ^ 31) ids"
| "fits_int (ImageData len) = True"
| "fits_int (AudioData len) = True"

subsection \<open>Predicates of the properties\<close>

text \<open>
  The invariant of the watermark of an entry, on its first model state: it lies between 0
  and \<open>max 0 (|committed_tokens| - 1)\<close>.
\<close>

definition watermark_ok :: "RequestStateEntry \<Rightarrow> bool" where
  "watermark_ok e \<longleftrightarrow>
     (case mstates e of
        [] \<Rightarrow> True
      | mstate0 # _ \<Rightarrow>
          0 \<le> cached_committed_tokens mstate0 \<and>
          cached_committed_tokens mstate0 \<le> max 0 (int (length (committed_tokens mstate0)) - 1))"

text \<open>
  What \<^verbatim>\<open>UpdatePrefixCache\<close> does for an entry held by the prefix cache, in the words
  of the specification. \<open>announced m\<close> are the token ids passed to \<open>ExtendSequence\<close> for
  the first model state \<open>m\<close> of the entry: the ids of the prefilled blocks and then, when
  the watermark is below \<open>|committed_tokens| - 1\<close>, the committed ids at the positions
  from the watermark up to, and without, the last one. \<open>settled m\<close> is the model state
  afterwards: no prefilled inputs, and the watermark at \<open>|committed_tokens| - 1\<close> if it was
  below. \<open>settled_entry pc e\<close> is the entry afterwards: settled if the prefix cache \<open>pc\<close>
  holds its sequence, as before otherwise.
\<close>

definition announced :: "RequestModelState \<Rightarrow> int list" where
  "announced m =
     concat (map token_ids (prefilled_inputs m)) @
     (if cached_committed_tokens m < int (length (committed_tokens m)) - 1
      then map (\<lambda>tok. fst (sampled_token_id tok))
             (take (length (committed_tokens m) - 1 - nat (cached_committed_tokens m))
                (drop (nat (cached_committed_tokens m)) (committed_tokens m)))
      else [])"

definition settled :: "RequestModelState \<Rightarrow> RequestModelState" where
  "settled m =
     m\<lparr>prefilled_inputs := [],
       cached_committed_tokens :=
         (if cached_committed_tokens m < int (length (committed_tokens m)) - 1
          then int (length (committed_tokens m)) - 1
          else cached_committed_tokens m)\<rparr>"

definition settled_entry :: "PrefixCache \<Rightarrow> RequestStateEntry \<Rightarrow> RequestStateEntry" where
  "settled_entry pc e =
     (if HasSequence pc (internal_id (mstates e ! 0))
      then e\<lparr>mstates := settled (mstates e ! 0) # tl (mstates e)\<rparr>
      else e)"

text \<open>
  The post-order invariant of a request state: an entry that is finished has no child,
  among its child indices within the vector, that is not finished.
\<close>

definition post_order :: "RequestStateEntry list \<Rightarrow> bool" where
  "post_order es \<longleftrightarrow>
     (\<forall>p < length es. status (es ! p) = kFinished \<longrightarrow>
        (\<forall>c \<in> set (child_indices (es ! p)).
           0 \<le> c \<and> c < int (length es) \<longrightarrow> status (es ! nat c) = kFinished))"

text \<open>
  \<open>marked es es'\<close>: the entries \<open>es'\<close> are the entries \<open>es\<close>, some of them with the status
  \<open>kFinished\<close>.
\<close>

definition marked :: "RequestStateEntry list \<Rightarrow> RequestStateEntry list \<Rightarrow> bool" where
  "marked es es' \<longleftrightarrow>
     length es' = length es \<and>
     (\<forall>i < length es. es' ! i = es ! i \<or> es' ! i = (es ! i)\<lparr>status := kFinished\<rparr>)"

text \<open>
  \<open>well_prefilled pc e\<close>: the entry \<open>e\<close> has a model state and, if the prefix cache
  \<open>pc\<close> holds its sequence, its prefilled blocks are token blocks and its watermark is
  not negative. \<^verbatim>\<open>UpdatePrefixCache\<close> goes through such entries without a fault.
\<close>

definition well_prefilled :: "PrefixCache \<Rightarrow> RequestStateEntry \<Rightarrow> bool" where
  "well_prefilled pc e \<longleftrightarrow>
     mstates e \<noteq> [] \<and>
     (HasSequence pc (internal_id (mstates e ! 0)) \<longrightarrow>
        (\<forall>d \<in> set (prefilled_inputs (mstates e ! 0)). \<exists>ids. d = TokenData ids) \<and>
        0 \<le> cached_committed_tokens (mstates e ! 0))"

text \<open>
  The climb of \<^verbatim>\<open>ProcessFinishedRequestStateEntries\<close> in the words of the
  specification. \<open>on_chain es start chain stop\<close>: \<open>chain\<close> is the list of the entries
  met when following \<open>parent_idx\<close> from the index \<open>start\<close>, each the parent of the one
  before, and \<open>stop\<close> is the parent index of the last one (\<open>start\<close> itself if the chain
  is empty). \<open>mark_finished es chain\<close> are the entries \<open>es\<close> with the status
  \<open>kFinished\<close> on the entries of the chain, set in this order.
\<close>

fun on_chain :: "RequestStateEntry list \<Rightarrow> int \<Rightarrow> nat list \<Rightarrow> int \<Rightarrow> bool" where
  "on_chain es start [] stop \<longleftrightarrow> start = stop"
| "on_chain es start (p # ps) stop \<longleftrightarrow>
     start = int p \<and> p < length es \<and> on_chain es (parent_idx (es ! p)) ps stop"

fun mark_finished :: "RequestStateEntry list \<Rightarrow> nat list \<Rightarrow> RequestStateEntry list" where
  "mark_finished es [] = es"
| "mark_finished es (p # ps) = mark_finished (es[p := (es ! p)\<lparr>status := kFinished\<rparr>]) ps"

text \<open>
  \<open>released pc0 estate models e\<close>: the resources of the entry \<open>e\<close> are released in the
  engine state \<open>estate\<close> and the models, where \<open>pc0\<close> is the prefix cache before the
  release. If the prefix cache held the sequence of the entry, the sequence is marked
  reclaimable there, unless the request is pinned; if not, the sequence id is in the free
  pool of the ID manager and no model holds the sequence.
\<close>

definition released ::
  "PrefixCache \<Rightarrow> EngineState \<Rightarrow> Model list \<Rightarrow> RequestStateEntry \<Rightarrow> bool" where
  "released pc0 estate models e \<longleftrightarrow>
     (if HasSequence pc0 (internal_id (mstates e ! 0))
      then is_pinned (request e) \<or>
           internal_id (mstates e ! 0) \<in> pc_recycling (prefix_cache estate)
      else internal_id (mstates e ! 0) \<in> set (available_ids (id_manager estate)) \<and>
           (\<forall>model \<in> set models. internal_id (mstates e ! 0) \<notin> kv_sequences model))"

text \<open>
  Two relations between a state of the engine and a later one. \<open>only_releases\<close>: the
  prefix cache holds the same sequences and has only gained reclaimable marks, the free pool
  of the ID manager has only gained ids, and each model has only lost sequences.
  \<open>states_marked\<close>: every request state of the later engine state is a request state of
  the earlier one with some entries marked \<open>kFinished\<close>.
\<close>

definition only_releases ::
  "EngineState \<Rightarrow> Model list \<Rightarrow> EngineState \<Rightarrow> Model list \<Rightarrow> bool" where
  "only_releases estate models estate' models' \<longleftrightarrow>
     pc_sequences (prefix_cache estate') = pc_sequences (prefix_cache estate) \<and>
     pc_recycling (prefix_cache estate) \<subseteq> pc_recycling (prefix_cache estate') \<and>
     set (available_ids (id_manager estate)) \<subseteq> set (available_ids (id_manager estate')) \<and>
     list_all2 (\<lambda>m' m. kv_sequences m' \<subseteq> kv_sequences m) models' models"

definition states_marked :: "EngineState \<Rightarrow> EngineState \<Rightarrow> bool" where
  "states_marked estate estate' \<longleftrightarrow>
     (\<forall>key rs'. request_states estate' key = Some rs' \<longrightarrow>
        (\<exists>rs. request_states estate key = Some rs \<and> marked (entries rs) (entries rs')))"

text \<open>
  The returns of the \<open>n\<close> calls of \<open>GetReturnTokenIds\<close> for a request, on the entries
  \<open>es\<close> of its state, in the order of the generations.
\<close>

definition generation_returns ::
  "(int \<Rightarrow> RequestStateEntry \<Rightarrow> DeltaRequestReturn \<times> RequestStateEntry) \<Rightarrow> int \<Rightarrow> Request \<Rightarrow>
   RequestStateEntry list \<Rightarrow> DeltaRequestReturn list" where
  "generation_returns grt max_len req es =
     map (\<lambda>i. fst (grt max_len (es ! generation_entry (cfg_n (generation_cfg req)) i)))
       [0 ..< nat (cfg_n (generation_cfg req))]"

text \<open>
  The contribution of one request to the callback batch in the words of the specification:
  one \<open>RequestStreamOutput\<close> with the \<open>n\<close> deltas, the logprob strings only if
  \<open>logprobs > 0\<close>, and the \<open>n\<close> finish reasons, if some generation has delta tokens or a
  finish reason, and nothing otherwise.
\<close>

definition spec_stream_output ::
  "(int \<Rightarrow> RequestStateEntry \<Rightarrow> DeltaRequestReturn \<times> RequestStateEntry) \<Rightarrow> int \<Rightarrow> Request \<Rightarrow>
   RequestStateEntry list \<Rightarrow> RequestStreamOutput list" where
  "spec_stream_output grt max_len req es =
     (if list_ex (\<lambda>ret. delta_token_ids ret \<noteq> [] \<or> finish_reason ret \<noteq> None)
           (generation_returns grt max_len req es)
      then [\<lparr>out_request_id = req_id req,
             group_delta_token_ids = map delta_token_ids (generation_returns grt max_len req es),
             group_delta_logprob_json_strs =
               (if logprobs (generation_cfg req) > 0
                then Some (map delta_logprob_json_strs (generation_returns grt max_len req es))
                else None),
             group_finish_reason = map finish_reason (generation_returns grt max_len req es)\<rparr>]
      else [])"

subsection \<open>Example states\<close>

text \<open>
  Two requests with one generation each, the second one with a pinned system prompt. The
  prefix cache holds sequence 4; sequence 5 lives in the models only.
\<close>

definition ex_cfg :: GenerationConfig where
  "ex_cfg = \<lparr>cfg_n = 1, logprobs = 0, debug_config = None\<rparr>"

definition ex_pinned_cfg :: GenerationConfig where
  "ex_pinned_cfg = \<lparr>cfg_n = 1, logprobs = 0, debug_config = Some \<lparr>pinned_system_prompt = True\<rparr>\<rparr>"

definition ex_request :: Request where
  "ex_request = \<lparr>req_id = ''r1'', req_inputs = [TokenData [1, 2, 3]], generation_cfg = ex_cfg\<rparr>"

definition ex_pinned_request :: Request where
  "ex_pinned_request = \<lparr>req_id = ''r2'', req_inputs = [TokenData [5, 5]], generation_cfg = ex_pinned_cfg\<rparr>"

definition ex_token :: "int \<Rightarrow> SampleResult" where
  "ex_token t = \<lparr>sampled_token_id = (t, 0), top_logprobs = []\<rparr>"

definition ex_mstate :: "int \<Rightarrow> RequestModelState" where
  "ex_mstate i = \<lparr>internal_id = i, model_id = 0, committed_tokens = [ex_token 7, ex_token 8, ex_token 9],
     inputs = [], prefilled_inputs = [TokenData [1, 2, 3]], cached_committed_tokens = 0,
     num_prefilled_tokens = 3, draft_output_tokens = [], draft_token_slots = [],
     appeared_token_ids = Map.empty\<rparr>"

definition ex_entry :: "Request \<Rightarrow> int \<Rightarrow> RequestStateEntry" where
  "ex_entry req i = \<lparr>status = kAlive, request = req, parent_idx = - 1, child_indices = [],
     mstates = [ex_mstate i], rng = 0, stop_str_handler = 0, next_callback_token_pos = 0,
     tadd = 100, tprefill_finish = 250\<rparr>"

definition ex_cache :: PrefixCache where
  "ex_cache = \<lparr>pc_sequences = [4 \<mapsto> [1, 2]], pc_recycling = {}\<rparr>"

definition ex_estate :: EngineState where
  "ex_estate = \<lparr>running_queue = [ex_pinned_request, ex_request], waiting_queue = [],
     request_states = [''r1'' \<mapsto> \<lparr>entries = [ex_entry ex_request 4]\<rparr>,
                       ''r2'' \<mapsto> \<lparr>entries = [ex_entry ex_pinned_request 5]\<rparr>],
     id_manager = \<lparr>available_ids = [], id_cnt = 6\<rparr>,
     prefix_cache = ex_cache,
     stats = \<lparr>total_prefill_length = 0, total_decode_length = 0,
              request_total_prefill_time = 0, request_total_decode_time = 0\<rparr>\<rparr>"

definition ex_models :: "Model list" where
  "ex_models = [\<lparr>kv_sequences = {5, 9}\<rparr>, \<lparr>kv_sequences = {5}\<rparr>]"


lemmas ex_defs = ex_estate_def ex_models_def ex_entry_def ex_mstate_def ex_cache_def
  ex_request_def ex_pinned_request_def ex_cfg_def ex_pinned_cfg_def ex_token_def

text \<open>
  A request with two generations: the root at index 0 and its children at 1 and 2, none
  of them in the prefix cache. The status of the second child is a parameter.
\<close>

definition ex_tree_request :: Request where
  "ex_tree_request = \<lparr>req_id = ''r3'', req_inputs = [TokenData [5, 5]],
     generation_cfg = \<lparr>cfg_n = 2, logprobs = 0, debug_config = None\<rparr>\<rparr>"

definition ex_node :: "RequestStateStatus \<Rightarrow> int \<Rightarrow> int list \<Rightarrow> int \<Rightarrow> RequestStateEntry" where
  "ex_node st parent children seq = \<lparr>status = st, request = ex_tree_request, parent_idx = parent,
     child_indices = children, mstates = [ex_mstate seq], rng = 0, stop_str_handler = 0,
     next_callback_token_pos = 0, tadd = 100, tprefill_finish = 250\<rparr>"

definition ex_tree :: "RequestStateStatus \<Rightarrow> RequestStateEntry list" where
  "ex_tree b = [ex_node kAlive (- 1) [1, 2] 10, ex_node kAlive 0 [] 11, ex_node b 0 [] 12]"

definition ex_tree_estate :: "RequestStateStatus \<Rightarrow> EngineState" where
  "ex_tree_estate b = \<lparr>running_queue = [ex_tree_request], waiting_queue = [],
     request_states = [''r3'' \<mapsto> \<lparr>entries = ex_tree b\<rparr>],
     id_manager = \<lparr>available_ids = [], id_cnt = 13\<rparr>,
     prefix_cache = ex_cache,
     stats = \<lparr>total_prefill_length = 0, total_decode_length = 0,
              request_total_prefill_time = 0, request_total_decode_time = 0\<rparr>\<rparr>"

lemmas ex_tree_defs = ex_tree_request_def ex_node_def ex_tree_def ex_tree_estate_def
  ex_mstate_def ex_token_def ex_cache_def ex_models_def

text \<open>
  Two stand-ins for \<open>GetReturnTokenIds\<close>: one returns the committed tokens from the
  callback position on and the reason \<open>length\<close> at the maximum length, the other returns
  nothing. And a state whose entry, held by the prefix cache, has prefilled an image block.
\<close>

definition ex_grt :: "int \<Rightarrow> RequestStateEntry \<Rightarrow> DeltaRequestReturn \<times> RequestStateEntry" where
  "ex_grt max_len e =
     (\<lparr>delta_token_ids =
         map (\<lambda>tok. fst (sampled_token_id tok))
           (drop (nat (next_callback_token_pos e)) (committed_tokens (mstates e ! 0))),
       delta_logprob_json_strs = [],
       finish_reason =
         (if max_len \<le> int (length (committed_tokens (mstates e ! 0)))
          then Some ''length'' else None)\<rparr>,
      e\<lparr>next_callback_token_pos := int (length (committed_tokens (mstates e ! 0)))\<rparr>)"

definition ex_silent_grt ::
  "int \<Rightarrow> RequestStateEntry \<Rightarrow> DeltaRequestReturn \<times> RequestStateEntry" where
  "ex_silent_grt max_len e =
     (\<lparr>delta_token_ids = [], delta_logprob_json_strs = [], finish_reason = None\<rparr>, e)"

definition ex_image_estate :: EngineState where
  "ex_image_estate = ex_estate\<lparr>request_states :=
     [''r1'' \<mapsto> \<lparr>entries = [(ex_entry ex_request 4)\<lparr>mstates :=
        [(ex_mstate 4)\<lparr>prefilled_inputs := [ImageData 16]\<rparr>]\<rparr>]\<rparr>]\<rparr>"

text \<open>
  A stream callback that keeps a log: for each call the batch, the running queue at the
  moment of the call, and for each output of the batch whether its request has a state in
  \<open>request_states\<close> at that moment.
\<close>

definition ex_callback ::
  "RequestStreamOutput list \<Rightarrow> EngineState \<Rightarrow> Model list \<Rightarrow>
   (RequestStreamOutput list \<times> Request list \<times> bool list) list \<Rightarrow>
   (RequestStreamOutput list \<times> Request list \<times> bool list) list" where
  "ex_callback outs estate models world =
     world @ [(outs, running_queue estate,
               map (\<lambda>out. request_states estate (out_request_id out) \<noteq> None) outs)]"

text \<open>Models in whose KV caches the sequence 4, which the prefix cache holds, has slots.\<close>

definition ex_resident_models :: "Model list" where
  "ex_resident_models = [\<lparr>kv_sequences = {4, 5}\<rparr>, \<lparr>kv_sequences = {4}\<rparr>]"

lemmas ex_step_defs = ex_defs ex_grt_def ex_silent_grt_def ex_image_estate_def ex_callback_def

section \<open>Properties\<close>

subsection \<open>The release policy for a retired entry\<close>

text \<open>
  C2. When \<open>RemoveRequestStateEntry\<close> retires one entry: if the prefix cache holds its
  sequence id and the request is pinned, the engine state and the models stay as they are;
  if the prefix cache holds the id and the request is not pinned, the only change is
  \<open>RecycleSequence\<close> of the id with \<open>lazy = True\<close>; if the prefix cache does not hold
  the id, the sequence is removed from every model and the id goes back to the free pool of
  the ID manager.
\<close>

theorem RemoveRequestStateEntry_policy:
  assumes "mstates rsentry = mstate0 # others"
  shows "\<exists>estate' models'.
    RemoveRequestStateEntry estate models rsentry = Inr (estate', models') \<and>
    (HasSequence (prefix_cache estate) (internal_id mstate0) \<and> is_pinned (request rsentry) \<longrightarrow>
       estate' = estate \<and> models' = models) \<and>
    (HasSequence (prefix_cache estate) (internal_id mstate0) \<and> \<not> is_pinned (request rsentry) \<longrightarrow>
       estate' = estate\<lparr>prefix_cache :=
                   RecycleSequence (internal_id mstate0) True (prefix_cache estate)\<rparr> \<and>
       models' = models) \<and>
    (\<not> HasSequence (prefix_cache estate) (internal_id mstate0) \<longrightarrow>
       estate' = estate\<lparr>id_manager := RecycleId (internal_id mstate0) (id_manager estate)\<rparr> \<and>
       models' = map (RemoveSequence (internal_id mstate0)) models \<and>
       (\<forall>m \<in> set models'. internal_id mstate0 \<notin> kv_sequences m) \<and>
       internal_id mstate0 \<in> set (available_ids (id_manager estate')))"
  using assms
  by (simp add: RemoveRequestStateEntry_def RemoveRequestFromModel_def RemoveSequence_def
      RecycleId_def RecycledSlots_def)


theorem RemoveRequestStateEntry_policy_witness:
  "mstates (ex_entry ex_request 4) = ex_mstate 4 # [] \<and>
   HasSequence (prefix_cache ex_estate) 4 \<and> \<not> is_pinned ex_request \<and>
   RemoveRequestStateEntry ex_estate ex_models (ex_entry ex_request 4) =
     Inr (ex_estate\<lparr>prefix_cache := RecycleSequence 4 True (prefix_cache ex_estate)\<rparr>, ex_models) \<and>
   \<not> HasSequence (prefix_cache ex_estate) 5 \<and>
   RemoveRequestStateEntry ex_estate ex_models (ex_entry ex_pinned_request 5) =
     Inr (ex_estate\<lparr>id_manager := \<lparr>available_ids = [5], id_cnt = 6\<rparr>\<rparr>,
          [\<lparr>kv_sequences = {9}\<rparr>, \<lparr>kv_sequences = {}\<rparr>]) \<and>
   is_pinned ex_pinned_request \<and>
   RemoveRequestStateEntry ex_estate ex_models (ex_entry ex_pinned_request 4) =
     Inr (ex_estate, ex_models)"
proof -
  have m4: "mstates (ex_entry ex_request 4) = ex_mstate 4 # []"
    and m5: "mstates (ex_entry ex_pinned_request 5) = ex_mstate 5 # []"
    and m4p: "mstates (ex_entry ex_pinned_request 4) = ex_mstate 4 # []"
    by (simp_all add: ex_entry_def)
  have held: "HasSequence (prefix_cache ex_estate) 4" "\<not> HasSequence (prefix_cache ex_estate) 5"
    by (simp_all add: HasSequence_def ex_estate_def ex_cache_def)
  have pin: "\<not> is_pinned ex_request" "is_pinned ex_pinned_request"
    by (simp_all add: is_pinned_def ex_request_def ex_pinned_request_def ex_cfg_def
        ex_pinned_cfg_def)
  have ids: "internal_id (ex_mstate 4) = 4" "internal_id (ex_mstate 5) = 5"
    "request (ex_entry ex_request 4) = ex_request"
    "request (ex_entry ex_pinned_request 5) = ex_pinned_request"
    "request (ex_entry ex_pinned_request 4) = ex_pinned_request"
    by (simp_all add: ex_mstate_def ex_entry_def)
  have a: "RemoveRequestStateEntry ex_estate ex_models (ex_entry ex_request 4) =
     Inr (ex_estate\<lparr>prefix_cache := RecycleSequence 4 True (prefix_cache ex_estate)\<rparr>, ex_models)"
    using RemoveRequestStateEntry_policy[OF m4, of ex_estate ex_models] held pin ids by auto
  have b: "RemoveRequestStateEntry ex_estate ex_models (ex_entry ex_pinned_request 5) =
     Inr (ex_estate\<lparr>id_manager := \<lparr>available_ids = [5], id_cnt = 6\<rparr>\<rparr>,
          [\<lparr>kv_sequences = {9}\<rparr>, \<lparr>kv_sequences = {}\<rparr>])"
    using RemoveRequestStateEntry_policy[OF m5, of ex_estate ex_models] held pin ids
    by (auto simp: RecycleId_def RemoveSequence_def ex_estate_def ex_models_def)
  have c: "RemoveRequestStateEntry ex_estate ex_models (ex_entry ex_pinned_request 4) =
     Inr (ex_estate, ex_models)"
    using RemoveRequestStateEntry_policy[OF m4p, of ex_estate ex_models] held pin ids by auto
  from m4 held pin a b c show ?thesis by simp
qed

subsection \<open>The watermark of committed tokens in the prefix cache\<close>

lemma HasSequence_ExtendSequence [simp]:
  "HasSequence (ExtendSequence seq_id tokens pc) other = HasSequence pc other"
  by (simp add: HasSequence_def ExtendSequence_def split: option.splits)

lemma UncachedCommitted_slice:
  "0 \<le> cached_committed_tokens m \<Longrightarrow>
   UncachedCommitted m =
     map (\<lambda>tok. fst (sampled_token_id tok))
       (take (length (committed_tokens m) - 1 - nat (cached_committed_tokens m))
          (drop (nat (cached_committed_tokens m)) (committed_tokens m)))"
proof (rule nth_equalityI)
  show "length (UncachedCommitted m) = length (map (\<lambda>tok. fst (sampled_token_id tok))
       (take (length (committed_tokens m) - 1 - nat (cached_committed_tokens m))
          (drop (nat (cached_committed_tokens m)) (committed_tokens m))))"
    by (simp add: UncachedCommitted_def min_def)
next
  fix i assume "i < length (UncachedCommitted m)"
  then have i: "i < length (committed_tokens m) - 1 - nat (cached_committed_tokens m)"
    by (simp add: UncachedCommitted_def)
  then have "nat (cached_committed_tokens m) + i < length (committed_tokens m)" by arith
  with i show "UncachedCommitted m ! i = map (\<lambda>tok. fst (sampled_token_id tok))
       (take (length (committed_tokens m) - 1 - nat (cached_committed_tokens m))
          (drop (nat (cached_committed_tokens m)) (committed_tokens m))) ! i"
    by (simp add: UncachedCommitted_def)
qed

lemma NotifyPrefilled_Inr:
  "NotifyPrefilled pc m = Inr (pc1, m1) \<Longrightarrow>
   cached_committed_tokens m1 = cached_committed_tokens m \<and>
   committed_tokens m1 = committed_tokens m"
  by (auto simp: NotifyPrefilled_def split: if_splits sum.splits)

lemma NotifyCommitted_Inr:
  "NotifyCommitted pc m = Inr (pc1, m1) \<Longrightarrow>
   0 \<le> cached_committed_tokens m \<Longrightarrow>
   cached_committed_tokens m \<le> max 0 (int (length (committed_tokens m)) - 1) \<Longrightarrow>
   0 \<le> cached_committed_tokens m1 \<and>
   cached_committed_tokens m1 \<le> max 0 (int (length (committed_tokens m1)) - 1)"
  by (auto simp: NotifyCommitted_def split: if_splits)

lemma UpdatePrefixCacheEntry_watermark_ok:
  assumes "UpdatePrefixCacheEntry pc e = Inr (pc', e')" and "watermark_ok e"
  shows "watermark_ok e'"
proof (cases "mstates e")
  case Nil
  with assms show ?thesis by (simp add: UpdatePrefixCacheEntry_def)
next
  case (Cons m0 others)
  show ?thesis
  proof (cases "HasSequence pc (internal_id m0)")
    case False
    with assms Cons show ?thesis by (simp add: UpdatePrefixCacheEntry_def)
  next
    case True
    with assms(1) Cons obtain pc1 m1 pc2 m2 where
      np: "NotifyPrefilled pc m0 = Inr (pc1, m1)"
      and nc: "NotifyCommitted pc1 m1 = Inr (pc2, m2)"
      and e': "e' = e\<lparr>mstates := m2 # others\<rparr>"
      by (auto simp: UpdatePrefixCacheEntry_def split: sum.splits)
    from assms(2) Cons have w: "0 \<le> cached_committed_tokens m0"
      "cached_committed_tokens m0 \<le> max 0 (int (length (committed_tokens m0)) - 1)"
      by (simp_all add: watermark_ok_def)
    from NotifyPrefilled_Inr[OF np] w have w1: "0 \<le> cached_committed_tokens m1"
      "cached_committed_tokens m1 \<le> max 0 (int (length (committed_tokens m1)) - 1)"
      by simp_all
    from NotifyCommitted_Inr[OF nc w1] e' show ?thesis
      by (simp add: watermark_ok_def)
  qed
qed

lemma UpdatePrefixCacheEntries_watermark_ok:
  "UpdatePrefixCacheEntries pc es = Inr (pc', es') \<Longrightarrow> list_all watermark_ok es \<Longrightarrow>
   list_all watermark_ok es'"
proof (induction es arbitrary: pc es')
  case Nil
  then show ?case by simp
next
  case (Cons e es)
  from Cons.prems(1) obtain pc1 e1 rest1 where
    h: "UpdatePrefixCacheEntry pc e = Inr (pc1, e1)"
    and t: "UpdatePrefixCacheEntries pc1 es = Inr (pc', rest1)"
    and eq: "es' = e1 # rest1"
    by (auto split: sum.splits)
  from Cons.prems(2) have "watermark_ok e" "list_all watermark_ok es" by simp_all
  with UpdatePrefixCacheEntry_watermark_ok[OF h] Cons.IH[OF t] eq show ?case by simp
qed

lemma UpdatePrefixCache_watermark_ok:
  "UpdatePrefixCache requests estate = Inr estate' \<Longrightarrow>
   \<forall>rs \<in> ran (request_states estate). list_all watermark_ok (entries rs) \<Longrightarrow>
   \<forall>rs \<in> ran (request_states estate'). list_all watermark_ok (entries rs)"
proof (induction requests arbitrary: estate)
  case Nil
  then show ?case by simp
next
  case (Cons req requests)
  from Cons.prems(1) obtain rstate pc1 es1 where
    rs: "request_states estate (req_id req) = Some rstate"
    and up: "UpdatePrefixCacheEntries (prefix_cache estate) (entries rstate) = Inr (pc1, es1)"
    and rec: "UpdatePrefixCache requests
       (estate\<lparr>prefix_cache := pc1,
               request_states := (request_states estate)(req_id req \<mapsto> rstate\<lparr>entries := es1\<rparr>)\<rparr>) =
       Inr estate'"
    by (auto simp: GetRequestState_def split: sum.splits option.splits)
  let ?e = "estate\<lparr>prefix_cache := pc1,
               request_states := (request_states estate)(req_id req \<mapsto> rstate\<lparr>entries := es1\<rparr>)\<rparr>"
  from rs Cons.prems(2) have "list_all watermark_ok (entries rstate)"
    by (auto simp: ran_def)
  from UpdatePrefixCacheEntries_watermark_ok[OF up this]
  have new: "list_all watermark_ok es1" .
  have "\<forall>rs \<in> ran (request_states ?e). list_all watermark_ok (entries rs)"
  proof
    fix rs' assume "rs' \<in> ran (request_states ?e)"
    then obtain k where k: "request_states ?e k = Some rs'" by (auto simp: ran_def)
    show "list_all watermark_ok (entries rs')"
    proof (cases "k = req_id req")
      case True
      with k have "rs' = rstate\<lparr>entries := es1\<rparr>" by simp
      with new show ?thesis by simp
    next
      case False
      with k have "request_states estate k = Some rs'" by simp
      with Cons.prems(2) show ?thesis by (auto simp: ran_def)
    qed
  qed
  from Cons.IH[OF rec this] show ?case .
qed

lemma ExtendSequence_Nil [simp]: "ExtendSequence seq_id [] pc = pc"
  by (simp add: ExtendSequence_def map_upd_triv split: option.splits)

lemma ExtendSequence_append:
  "ExtendSequence seq_id b (ExtendSequence seq_id a pc) = ExtendSequence seq_id (a @ b) pc"
  by (simp add: ExtendSequence_def split: option.splits)

lemma ExtendPrefilled_Inr:
  "ExtendPrefilled seq_id ds pc = Inr pc1 \<Longrightarrow>
   (\<forall>d \<in> set ds. \<exists>ids. d = TokenData ids) \<and>
   pc1 = ExtendSequence seq_id (concat (map token_ids ds)) pc"
proof (induction ds arbitrary: pc)
  case Nil
  then show ?case by simp
next
  case (Cons d ds)
  show ?case
  proof (cases d)
    case (TokenData ids)
    with Cons.prems have "ExtendPrefilled seq_id ds (ExtendSequence seq_id ids pc) = Inr pc1"
      by simp
    from Cons.IH[OF this] TokenData show ?thesis
      by (simp add: ExtendSequence_append)
  next
    case (ImageData len)
    with Cons.prems show ?thesis by simp
  next
    case (AudioData len)
    with Cons.prems show ?thesis by simp
  qed
qed

lemma UpdatePrefixCacheEntry_Inr:
  assumes run: "UpdatePrefixCacheEntry pc e = Inr (pc', e')"
  shows "mstates e \<noteq> []"
    and "e' = settled_entry pc e"
    and "HasSequence pc (internal_id (mstates e ! 0)) \<Longrightarrow>
         (\<forall>d \<in> set (prefilled_inputs (mstates e ! 0)). \<exists>ids. d = TokenData ids) \<and>
         (cached_committed_tokens (mstates e ! 0) <
            int (length (committed_tokens (mstates e ! 0))) - 1 \<longrightarrow>
          0 \<le> cached_committed_tokens (mstates e ! 0)) \<and>
         pc' = ExtendSequence (internal_id (mstates e ! 0)) (announced (mstates e ! 0)) pc"
    and "\<not> HasSequence pc (internal_id (mstates e ! 0)) \<Longrightarrow> pc' = pc"
proof -
  from run obtain m others where ms: "mstates e = m # others"
    by (cases "mstates e") (auto simp: UpdatePrefixCacheEntry_def)
  then show "mstates e \<noteq> []" by simp
  have m0: "mstates e ! 0 = m" "tl (mstates e) = others" using ms by simp_all
  show "\<not> HasSequence pc (internal_id (mstates e ! 0)) \<Longrightarrow> pc' = pc"
    using run ms by (simp add: UpdatePrefixCacheEntry_def)
  have held: "(\<forall>d \<in> set (prefilled_inputs m). \<exists>ids. d = TokenData ids) \<and>
         (cached_committed_tokens m < int (length (committed_tokens m)) - 1 \<longrightarrow>
          0 \<le> cached_committed_tokens m) \<and>
         pc' = ExtendSequence (internal_id m) (announced m) pc \<and>
         e' = e\<lparr>mstates := settled m # others\<rparr>"
    if h: "HasSequence pc (internal_id m)"
  proof -
    from run ms h obtain pc1 m1 where
      np: "NotifyPrefilled pc m = Inr (pc1, m1)"
      and nc: "NotifyCommitted pc1 m1 = Inr (pc', mstates e' ! 0)"
      and e': "e' = e\<lparr>mstates := (mstates e' ! 0) # others\<rparr>"
      by (auto simp: UpdatePrefixCacheEntry_def split: sum.splits)
    from np have ep: "ExtendPrefilled (internal_id m) (prefilled_inputs m) pc = Inr pc1"
      and m1: "m1 = m\<lparr>prefilled_inputs := []\<rparr>"
      by (auto simp: NotifyPrefilled_def split: if_splits sum.splits)
    note p = ExtendPrefilled_Inr[OF ep]
    show ?thesis
    proof (cases "cached_committed_tokens m < int (length (committed_tokens m)) - 1")
      case True
      with nc m1 have pos: "0 \<le> cached_committed_tokens m"
        and pc': "pc' = ExtendSequence (internal_id m) (UncachedCommitted m1) pc1"
        and m2: "mstates e' ! 0 = m1\<lparr>cached_committed_tokens := int (length (committed_tokens m)) - 1\<rparr>"
        by (auto simp: NotifyCommitted_def split: if_splits)
      from pos m1 have uc: "UncachedCommitted m1 =
          map (\<lambda>tok. fst (sampled_token_id tok))
             (take (length (committed_tokens m) - 1 - nat (cached_committed_tokens m))
                (drop (nat (cached_committed_tokens m)) (committed_tokens m)))"
        using UncachedCommitted_slice[of m1] by simp
      from p pc' uc True have "pc' = ExtendSequence (internal_id m) (announced m) pc"
        by (simp add: announced_def ExtendSequence_append)
      moreover from e' m2 m1 True have "e' = e\<lparr>mstates := settled m # others\<rparr>"
        by (simp add: settled_def)
      ultimately show ?thesis using p pos by simp
    next
      case False
      with nc m1 have pc': "pc' = pc1" and m2: "mstates e' ! 0 = m1"
        by (auto simp: NotifyCommitted_def)
      from p pc' False have "pc' = ExtendSequence (internal_id m) (announced m) pc"
        by (simp add: announced_def)
      moreover from e' m2 m1 False have "e' = e\<lparr>mstates := settled m # others\<rparr>"
        by (simp add: settled_def)
      ultimately show ?thesis using p False by simp
    qed
  qed
  from held show "HasSequence pc (internal_id (mstates e ! 0)) \<Longrightarrow>
         (\<forall>d \<in> set (prefilled_inputs (mstates e ! 0)). \<exists>ids. d = TokenData ids) \<and>
         (cached_committed_tokens (mstates e ! 0) <
            int (length (committed_tokens (mstates e ! 0))) - 1 \<longrightarrow>
          0 \<le> cached_committed_tokens (mstates e ! 0)) \<and>
         pc' = ExtendSequence (internal_id (mstates e ! 0)) (announced (mstates e ! 0)) pc"
    unfolding m0 by simp
  show "e' = settled_entry pc e"
  proof (cases "HasSequence pc (internal_id m)")
    case True
    with held show ?thesis by (simp add: settled_entry_def m0)
  next
    case False
    with run ms show ?thesis by (simp add: UpdatePrefixCacheEntry_def settled_entry_def)
  qed
qed

lemma pc_sequences_ExtendSequence:
  "pc_sequences (ExtendSequence seq_id toks pc) x =
     (if x = seq_id then map_option (\<lambda>t. t @ toks) (pc_sequences pc x) else pc_sequences pc x)"
  by (simp add: ExtendSequence_def split: option.splits)

lemma UpdatePrefixCacheEntry_sequences:
  assumes run: "UpdatePrefixCacheEntry pc e = Inr (pc', e')"
  shows "pc_sequences pc' x =
     (if internal_id (mstates e ! 0) = x
      then map_option (\<lambda>t. t @ announced (mstates e ! 0)) (pc_sequences pc x)
      else pc_sequences pc x)"
    and "HasSequence pc' x = HasSequence pc x"
proof -
  note r = UpdatePrefixCacheEntry_Inr[OF run]
  show "pc_sequences pc' x =
     (if internal_id (mstates e ! 0) = x
      then map_option (\<lambda>t. t @ announced (mstates e ! 0)) (pc_sequences pc x)
      else pc_sequences pc x)"
  proof (cases "HasSequence pc (internal_id (mstates e ! 0))")
    case True
    from r(3)[OF True] show ?thesis by (auto simp: pc_sequences_ExtendSequence)
  next
    case False
    from r(4)[OF False] False show ?thesis by (auto simp: HasSequence_def)
  qed
  then show "HasSequence pc' x = HasSequence pc x"
    by (auto simp: HasSequence_def)
qed

lemma settled_entry_cong:
  "(\<forall>x. HasSequence pc1 x = HasSequence pc x) \<Longrightarrow> settled_entry pc1 = settled_entry pc"
  by (auto simp: settled_entry_def fun_eq_iff)

lemma UpdatePrefixCacheEntries_Inr:
  assumes "UpdatePrefixCacheEntries pc es = Inr (pc', es')"
  shows "es' = map (settled_entry pc) es \<and>
    (\<forall>x. HasSequence pc' x = HasSequence pc x) \<and>
    (\<forall>x. pc_sequences pc' x =
       map_option (\<lambda>t. t @ concat (map (\<lambda>e. announced (mstates e ! 0))
                     (filter (\<lambda>e. internal_id (mstates e ! 0) = x) es)))
         (pc_sequences pc x))"
  using assms
proof (induction es arbitrary: pc es')
  case Nil
  then show ?case by (simp add: option.map_ident)
next
  case (Cons e es)
  from Cons.prems obtain pc1 e1 rest1 where
    h: "UpdatePrefixCacheEntry pc e = Inr (pc1, e1)"
    and t: "UpdatePrefixCacheEntries pc1 es = Inr (pc', rest1)"
    and eq: "es' = e1 # rest1"
    by (auto split: sum.splits)
  note hs = UpdatePrefixCacheEntry_sequences[OF h]
  note he = UpdatePrefixCacheEntry_Inr(2)[OF h]
  note ih = Cons.IH[OF t]
  have cong: "settled_entry pc1 = settled_entry pc"
    by (rule settled_entry_cong) (simp add: hs(2))
  have a: "es' = map (settled_entry pc) (e # es)"
    using eq he ih cong by simp
  have b: "\<forall>x. HasSequence pc' x = HasSequence pc x"
    using ih hs(2) by simp
  have c: "pc_sequences pc' x =
       map_option (\<lambda>t. t @ concat (map (\<lambda>e. announced (mstates e ! 0))
                     (filter (\<lambda>e. internal_id (mstates e ! 0) = x) (e # es))))
         (pc_sequences pc x)" for x
  proof -
    from ih have "pc_sequences pc' x =
       map_option (\<lambda>t. t @ concat (map (\<lambda>e. announced (mstates e ! 0))
                     (filter (\<lambda>e. internal_id (mstates e ! 0) = x) es)))
         (pc_sequences pc1 x)" by blast
    then show ?thesis
      unfolding hs(1)[of x]
      by (cases "pc_sequences pc x") (auto simp: option.map_comp comp_def)
  qed
  from a b c show ?case by blast
qed


lemma UpdatePrefixCache_Inr:
  assumes "UpdatePrefixCache reqs estate = Inr estate'" and "distinct (map req_id reqs)"
  shows "(\<forall>x. HasSequence (prefix_cache estate') x = HasSequence (prefix_cache estate) x) \<and>
    (\<forall>r \<in> set reqs. \<exists>rst.
       request_states estate (req_id r) = Some rst \<and>
       request_states estate' (req_id r) =
         Some \<lparr>entries = map (settled_entry (prefix_cache estate)) (entries rst)\<rparr>) \<and>
    (\<forall>x. pc_sequences (prefix_cache estate') x =
       map_option (\<lambda>t. t @ concat (map (\<lambda>r.
           case request_states estate (req_id r) of
             None \<Rightarrow> []
           | Some rst \<Rightarrow> concat (map (\<lambda>e. announced (mstates e ! 0))
                           (filter (\<lambda>e. internal_id (mstates e ! 0) = x) (entries rst)))) reqs))
         (pc_sequences (prefix_cache estate) x))"
  using assms
proof (induction reqs arbitrary: estate)
  case Nil
  then show ?case by (simp add: option.map_ident)
next
  case (Cons req reqs)
  from Cons.prems(1) obtain rstate pc1 es1 where
    rs: "request_states estate (req_id req) = Some rstate"
    and up: "UpdatePrefixCacheEntries (prefix_cache estate) (entries rstate) = Inr (pc1, es1)"
    and rec: "UpdatePrefixCache reqs
       (estate\<lparr>prefix_cache := pc1,
               request_states := (request_states estate)(req_id req \<mapsto> rstate\<lparr>entries := es1\<rparr>)\<rparr>) =
       Inr estate'"
    by (auto simp: GetRequestState_def split: sum.splits option.splits)
  define mid where "mid = estate\<lparr>prefix_cache := pc1,
               request_states := (request_states estate)(req_id req \<mapsto> rstate\<lparr>entries := es1\<rparr>)\<rparr>"
  from Cons.prems(2) have d: "distinct (map req_id reqs)"
    and nr: "\<forall>r \<in> set reqs. req_id r \<noteq> req_id req" by (auto simp: image_iff)
  note u = UpdatePrefixCacheEntries_Inr[OF up]
  note ih = Cons.IH[OF rec[folded mid_def] d]
  have pcm: "prefix_cache mid = pc1" by (simp add: mid_def)
  have rsm: "request_states mid k = (if k = req_id req then Some \<lparr>entries = es1\<rparr>
               else request_states estate k)" for k
    by (simp add: mid_def)
  have cong: "settled_entry pc1 = settled_entry (prefix_cache estate)"
    by (rule settled_entry_cong) (use u in simp)
  have a: "\<forall>x. HasSequence (prefix_cache estate') x = HasSequence (prefix_cache estate) x"
    using ih u pcm by simp
  have keep: "request_states estate' (req_id req) = request_states mid (req_id req)"
    using rec[folded mid_def] nr
  proof (induction reqs arbitrary: mid)
    case Nil
    then show ?case by simp
  next
    case (Cons r rs)
    from Cons.prems(1) obtain rst pc2 es2 where
      "request_states mid (req_id r) = Some rst"
      and rec': "UpdatePrefixCache rs
       (mid\<lparr>prefix_cache := pc2,
               request_states := (request_states mid)(req_id r \<mapsto> rst\<lparr>entries := es2\<rparr>)\<rparr>) =
       Inr estate'"
      by (auto simp: GetRequestState_def split: sum.splits option.splits)
    from Cons.prems(2) have "\<forall>r \<in> set rs. req_id r \<noteq> req_id req"
      and ne: "req_id r \<noteq> req_id req" by simp_all
    from Cons.IH[OF rec' this(1)] ne show ?case by simp
  qed
  have b: "\<forall>r \<in> set (req # reqs). \<exists>rst.
       request_states estate (req_id r) = Some rst \<and>
       request_states estate' (req_id r) =
         Some \<lparr>entries = map (settled_entry (prefix_cache estate)) (entries rst)\<rparr>"
  proof
    fix r assume "r \<in> set (req # reqs)"
    then consider "r = req" | "r \<in> set reqs" by auto
    then show "\<exists>rst. request_states estate (req_id r) = Some rst \<and>
       request_states estate' (req_id r) =
         Some \<lparr>entries = map (settled_entry (prefix_cache estate)) (entries rst)\<rparr>"
    proof cases
      case 1
      with keep rsm rs u show ?thesis by simp
    next
      case 2
      with nr have ne: "req_id r \<noteq> req_id req" by simp
      from ih 2 obtain rst where "request_states mid (req_id r) = Some rst"
        and "request_states estate' (req_id r) =
         Some \<lparr>entries = map (settled_entry (prefix_cache mid)) (entries rst)\<rparr>" by blast
      with ne rsm pcm cong show ?thesis by simp
    qed
  qed
  have c: "pc_sequences (prefix_cache estate') x =
       map_option (\<lambda>t. t @ concat (map (\<lambda>r.
           case request_states estate (req_id r) of
             None \<Rightarrow> []
           | Some rst \<Rightarrow> concat (map (\<lambda>e. announced (mstates e ! 0))
                           (filter (\<lambda>e. internal_id (mstates e ! 0) = x) (entries rst)))) (req # reqs)))
         (pc_sequences (prefix_cache estate) x)" for x
  proof -
    let ?f = "\<lambda>st r. case request_states st (req_id r) of
             None \<Rightarrow> []
           | Some rst \<Rightarrow> concat (map (\<lambda>e. announced (mstates e ! 0))
                           (filter (\<lambda>e. internal_id (mstates e ! 0) = x) (entries rst)))"
    have m: "map (?f mid) reqs = map (?f estate) reqs"
      by (rule map_cong) (use nr rsm in auto)
    from ih have "pc_sequences (prefix_cache estate') x =
       map_option (\<lambda>t. t @ concat (map (?f mid) reqs)) (pc_sequences (prefix_cache mid) x)"
      by blast
    also have "pc_sequences (prefix_cache mid) x =
       map_option (\<lambda>t. t @ concat (map (\<lambda>e. announced (mstates e ! 0))
                     (filter (\<lambda>e. internal_id (mstates e ! 0) = x) (entries rstate))))
         (pc_sequences (prefix_cache estate) x)"
      using u pcm by simp
    finally show ?thesis
      unfolding m using rs
      by (cases "pc_sequences (prefix_cache estate) x") (simp_all add: option.map_comp comp_def)
  qed
  from a b c show ?case by blast
qed

lemma UpdatePrefixCacheEntries_tokens:
  assumes "UpdatePrefixCacheEntries pc es = Inr (pc', es')" and "e \<in> set es"
    and "HasSequence pc (internal_id (mstates e ! 0))"
  shows "\<forall>d \<in> set (prefilled_inputs (mstates e ! 0)). \<exists>ids. d = TokenData ids"
  using assms
proof (induction es arbitrary: pc es')
  case Nil
  then show ?case by simp
next
  case (Cons a es)
  from Cons.prems(1) obtain pc1 a1 rest1 where
    h: "UpdatePrefixCacheEntry pc a = Inr (pc1, a1)"
    and t: "UpdatePrefixCacheEntries pc1 es = Inr (pc', rest1)"
    by (auto split: sum.splits)
  show ?case
  proof (cases "e = a")
    case True
    with UpdatePrefixCacheEntry_Inr(3)[OF h] Cons.prems(3) show ?thesis by simp
  next
    case False
    with Cons.prems(2) have "e \<in> set es" by simp
    moreover from Cons.prems(3) UpdatePrefixCacheEntry_sequences(2)[OF h]
    have "HasSequence pc1 (internal_id (mstates e ! 0))" by simp
    ultimately show ?thesis by (rule Cons.IH[OF t])
  qed
qed

lemma UpdatePrefixCache_tokens:
  assumes "UpdatePrefixCache reqs estate = Inr estate'" and "distinct (map req_id reqs)"
    and "r \<in> set reqs" and "request_states estate (req_id r) = Some rst"
    and "e \<in> set (entries rst)"
    and "HasSequence (prefix_cache estate) (internal_id (mstates e ! 0))"
  shows "\<forall>d \<in> set (prefilled_inputs (mstates e ! 0)). \<exists>ids. d = TokenData ids"
  using assms
proof (induction reqs arbitrary: estate)
  case Nil
  then show ?case by simp
next
  case (Cons req reqs)
  from Cons.prems(1) obtain rstate pc1 es1 where
    rs: "request_states estate (req_id req) = Some rstate"
    and up: "UpdatePrefixCacheEntries (prefix_cache estate) (entries rstate) = Inr (pc1, es1)"
    and rec: "UpdatePrefixCache reqs
       (estate\<lparr>prefix_cache := pc1,
               request_states := (request_states estate)(req_id req \<mapsto> rstate\<lparr>entries := es1\<rparr>)\<rparr>) =
       Inr estate'"
    by (auto simp: GetRequestState_def split: sum.splits option.splits)
  show ?case
  proof (cases "req_id r = req_id req")
    case True
    with rs Cons.prems(4) have "rst = rstate" by simp
    with UpdatePrefixCacheEntries_tokens[OF up] Cons.prems(5,6) show ?thesis by simp
  next
    case False
    with Cons.prems(3) have rin: "r \<in> set reqs" by auto
    from Cons.prems(2) have d: "distinct (map req_id reqs)" by simp
    let ?mid = "estate\<lparr>prefix_cache := pc1,
               request_states := (request_states estate)(req_id req \<mapsto> rstate\<lparr>entries := es1\<rparr>)\<rparr>"
    from False Cons.prems(4) have a: "request_states ?mid (req_id r) = Some rst" by simp
    from UpdatePrefixCacheEntries_Inr[OF up] Cons.prems(6)
    have b: "HasSequence (prefix_cache ?mid) (internal_id (mstates e ! 0))" by simp
    from Cons.IH[OF rec d rin a Cons.prems(5) b] show ?thesis .
  qed
qed

lemma filter_single:
  "i < length xs \<Longrightarrow> P (xs ! i) \<Longrightarrow> (\<forall>j < length xs. P (xs ! j) \<longrightarrow> j = i) \<Longrightarrow>
   filter P xs = [xs ! i]"
proof (induction xs arbitrary: i)
  case Nil
  then show ?case by simp
next
  case (Cons x xs)
  show ?case
  proof (cases i)
    case 0
    have "\<not> P y" if "y \<in> set xs" for y
    proof
      assume py: "P y"
      from that obtain j where "j < length xs" "xs ! j = y" by (auto simp: in_set_conv_nth)
      with Cons.prems(3)[rule_format, of "Suc j"] py 0 show False by simp
    qed
    then have "filter P xs = []" by (simp add: filter_empty_conv)
    with 0 Cons.prems(2) show ?thesis by simp
  next
    case (Suc k)
    from Cons.prems(3)[rule_format, of 0] Suc have nx: "\<not> P x" by auto
    have "filter P xs = [xs ! k]"
    proof (rule Cons.IH)
      show "k < length xs" using Cons.prems(1) Suc by simp
      show "P (xs ! k)" using Cons.prems(2) Suc by simp
      show "\<forall>j<length xs. P (xs ! j) \<longrightarrow> j = k"
      proof (intro allI impI)
        fix j assume "j < length xs" "P (xs ! j)"
        with Cons.prems(3)[rule_format, of "Suc j"] Suc show "j = k" by simp
      qed
    qed
    with nx Suc show ?thesis by simp
  qed
qed

lemma concat_map_single:
  "x \<in> set xs \<Longrightarrow> distinct xs \<Longrightarrow> (\<forall>y \<in> set xs. y \<noteq> x \<longrightarrow> f y = []) \<Longrightarrow>
   concat (map f xs) = f x"
proof (induction xs)
  case Nil
  then show ?case by simp
next
  case (Cons a xs)
  show ?case
  proof (cases "a = x")
    case True
    with Cons.prems have "\<forall>y \<in> set xs. f y = []" by auto
    then have "concat (map f xs) = []" by simp
    with True show ?thesis by simp
  next
    case False
    with Cons.prems have "f a = []" "x \<in> set xs" "distinct xs"
      "\<forall>y \<in> set xs. y \<noteq> x \<longrightarrow> f y = []" by auto
    with Cons.IH show ?thesis by simp
  qed
qed

text \<open>
  The run returns when the requests have distinct ids and each has a state whose entries
  are \<open>well_prefilled\<close>.
\<close>

lemma ExtendPrefilled_returns:
  "\<forall>d \<in> set ds. \<exists>ids. d = TokenData ids \<Longrightarrow> \<exists>pc1. ExtendPrefilled seq_id ds pc = Inr pc1"
  by (induction ds arbitrary: pc) auto

lemma UpdatePrefixCacheEntry_returns:
  assumes "well_prefilled pc e"
  shows "\<exists>pc' e'. UpdatePrefixCacheEntry pc e = Inr (pc', e')"
proof -
  from assms obtain m others where ms: "mstates e = m # others"
    by (cases "mstates e") (auto simp: well_prefilled_def)
  show ?thesis
  proof (cases "HasSequence pc (internal_id m)")
    case False
    with ms show ?thesis by (simp add: UpdatePrefixCacheEntry_def)
  next
    case True
    with assms ms have toks: "\<forall>d \<in> set (prefilled_inputs m). \<exists>ids. d = TokenData ids"
      and pos: "0 \<le> cached_committed_tokens m"
      by (simp_all add: well_prefilled_def)
    from ExtendPrefilled_returns[OF toks] obtain pc1 where
      "ExtendPrefilled (internal_id m) (prefilled_inputs m) pc = Inr pc1" by blast
    then have np: "NotifyPrefilled pc m = Inr (pc1, m\<lparr>prefilled_inputs := []\<rparr>)"
      by (cases "prefilled_inputs m = []") (auto simp: NotifyPrefilled_def)
    from pos have "\<exists>pc2 m2. NotifyCommitted pc1 (m\<lparr>prefilled_inputs := []\<rparr>) = Inr (pc2, m2)"
      by (simp add: NotifyCommitted_def)
    with np True ms show ?thesis by (auto simp: UpdatePrefixCacheEntry_def)
  qed
qed

lemma well_prefilled_cong:
  "(\<forall>x. HasSequence pc1 x = HasSequence pc x) \<Longrightarrow> well_prefilled pc1 = well_prefilled pc"
  by (simp add: well_prefilled_def fun_eq_iff)

lemma UpdatePrefixCacheEntries_returns:
  "list_all (well_prefilled pc) es \<Longrightarrow> \<exists>pc' es'. UpdatePrefixCacheEntries pc es = Inr (pc', es')"
proof (induction es arbitrary: pc)
  case Nil
  show ?case by simp
next
  case (Cons e es)
  from Cons.prems have "well_prefilled pc e" by simp
  from UpdatePrefixCacheEntry_returns[OF this] obtain pc1 e1 where
    h: "UpdatePrefixCacheEntry pc e = Inr (pc1, e1)" by blast
  from UpdatePrefixCacheEntry_sequences(2)[OF h]
  have "\<forall>x. HasSequence pc1 x = HasSequence pc x" by simp
  then have "well_prefilled pc1 = well_prefilled pc" by (rule well_prefilled_cong)
  with Cons.prems have "list_all (well_prefilled pc1) es" by simp
  from Cons.IH[OF this] obtain pc' es' where
    "UpdatePrefixCacheEntries pc1 es = Inr (pc', es')" by blast
  with h show ?case by simp
qed

lemma UpdatePrefixCache_returns:
  assumes "distinct (map req_id reqs)"
    and "\<forall>r \<in> set reqs. \<exists>rst. request_states estate (req_id r) = Some rst \<and>
           list_all (well_prefilled (prefix_cache estate)) (entries rst)"
  shows "\<exists>estate'. UpdatePrefixCache reqs estate = Inr estate'"
  using assms
proof (induction reqs arbitrary: estate)
  case Nil
  show ?case by simp
next
  case (Cons req reqs)
  from Cons.prems(2) obtain rstate where
    rs: "request_states estate (req_id req) = Some rstate"
    and wp: "list_all (well_prefilled (prefix_cache estate)) (entries rstate)" by auto
  from UpdatePrefixCacheEntries_returns[OF wp] obtain pc1 es1 where
    up: "UpdatePrefixCacheEntries (prefix_cache estate) (entries rstate) = Inr (pc1, es1)"
    by blast
  let ?mid = "estate\<lparr>prefix_cache := pc1,
               request_states := (request_states estate)(req_id req \<mapsto> rstate\<lparr>entries := es1\<rparr>)\<rparr>"
  from UpdatePrefixCacheEntries_Inr[OF up]
  have hs: "\<forall>x. HasSequence pc1 x = HasSequence (prefix_cache estate) x" by simp
  then have wc: "well_prefilled pc1 = well_prefilled (prefix_cache estate)"
    by (rule well_prefilled_cong)
  from Cons.prems(1) have d: "distinct (map req_id reqs)"
    and nr: "\<forall>r \<in> set reqs. req_id r \<noteq> req_id req" by (auto simp: image_iff)
  have "\<forall>r \<in> set reqs. \<exists>rst. request_states ?mid (req_id r) = Some rst \<and>
           list_all (well_prefilled (prefix_cache ?mid)) (entries rst)"
  proof
    fix r assume r: "r \<in> set reqs"
    with Cons.prems(2) obtain rst where "request_states estate (req_id r) = Some rst"
      and "list_all (well_prefilled (prefix_cache estate)) (entries rst)" by auto
    with nr r wc show "\<exists>rst. request_states ?mid (req_id r) = Some rst \<and>
           list_all (well_prefilled (prefix_cache ?mid)) (entries rst)"
      by simp
  qed
  from Cons.IH[OF d this] obtain estate' where "UpdatePrefixCache reqs ?mid = Inr estate'"
    by blast
  with rs up show ?case by (simp add: GetRequestState_def)
qed

lemma ex_update:
  "\<exists>e'. UpdatePrefixCache [ex_request] ex_estate = Inr e'"
  by (simp add: ex_defs GetRequestState_def UpdatePrefixCacheEntry_def NotifyPrefilled_def
      NotifyCommitted_def HasSequence_def)


text \<open>
  C1. A run of \<open>UpdatePrefixCache\<close> over requests with distinct ids returns. Take an
  entry of one of the requests whose sequence id the prefix cache holds, with the tokens
  \<open>tokens_held\<close>. Let the watermark \<open>cached_committed_tokens\<close> of the entry lie
  between 0 and \<open>max 0 (|committed_tokens| - 1)\<close>. After the run the prefilled blocks of
  the entry, which are token blocks, are cleared. When the watermark was below
  \<open>|committed_tokens| - 1\<close>, \<open>pushed\<close> are the committed token ids at the positions
  from the watermark up to, and without, the last one, and the watermark is now
  \<open>|committed_tokens| - 1\<close>; otherwise nothing is pushed and the watermark is as before.
  If no other entry of the requests has the sequence id of the entry, the sequence in the
  prefix cache after the run is \<open>tokens_held\<close>, then the ids of the prefilled blocks,
  then \<open>pushed\<close>. The watermark is again in its range, and a run keeps the watermarks
  of all entries of the engine in that range.
\<close>

theorem UpdatePrefixCache_watermark:
  assumes run: "UpdatePrefixCache requests estate = Inr estate'"
    and dist: "distinct (map req_id requests)"
    and req: "req \<in> set requests"
    and rs: "request_states estate (req_id req) = Some rstate"
    and i: "i < length (entries rstate)"
    and ms: "mstates (entries rstate ! i) = mstate0 # others"
    and held: "pc_sequences (prefix_cache estate) (internal_id mstate0) = Some tokens_held"
    and inv: "0 \<le> cached_committed_tokens mstate0"
             "cached_committed_tokens mstate0 \<le> max 0 (int (length (committed_tokens mstate0)) - 1)"
  shows "(\<exists>rstate' mark pushed.
      request_states estate' (req_id req) = Some rstate' \<and>
      length (entries rstate') = length (entries rstate) \<and>
      entries rstate' ! i =
        (entries rstate ! i)\<lparr>mstates :=
           mstate0\<lparr>prefilled_inputs := [], cached_committed_tokens := mark\<rparr> # others\<rparr> \<and>
      (\<forall>d \<in> set (prefilled_inputs mstate0). \<exists>ids. d = TokenData ids) \<and>
      ((\<forall>r \<in> set requests. \<forall>rst j.
          request_states estate (req_id r) = Some rst \<and> j < length (entries rst) \<and>
          internal_id (mstates (entries rst ! j) ! 0) = internal_id mstate0 \<longrightarrow>
          r = req \<and> j = i) \<longrightarrow>
       pc_sequences (prefix_cache estate') (internal_id mstate0) =
         Some (tokens_held @ concat (map token_ids (prefilled_inputs mstate0)) @ pushed)) \<and>
      0 \<le> mark \<and> mark \<le> max 0 (int (length (committed_tokens mstate0)) - 1) \<and>
      (cached_committed_tokens mstate0 < int (length (committed_tokens mstate0)) - 1 \<longrightarrow>
         pushed = map (\<lambda>tok. fst (sampled_token_id tok))
                    (take (length (committed_tokens mstate0) - 1 -
                           nat (cached_committed_tokens mstate0))
                       (drop (nat (cached_committed_tokens mstate0)) (committed_tokens mstate0))) \<and>
         mark = int (length (committed_tokens mstate0)) - 1) \<and>
      (\<not> cached_committed_tokens mstate0 < int (length (committed_tokens mstate0)) - 1 \<longrightarrow>
         pushed = [] \<and> mark = cached_committed_tokens mstate0)) \<and>
    ((\<forall>rs \<in> ran (request_states estate). list_all watermark_ok (entries rs)) \<longrightarrow>
     (\<forall>rs \<in> ran (request_states estate'). list_all watermark_ok (entries rs)))"
proof -
  let ?sid = "internal_id mstate0"
  let ?e = "entries rstate ! i"
  let ?pc = "prefix_cache estate"
  let ?P = "\<lambda>e. internal_id (mstates e ! 0) = ?sid"
  let ?f = "\<lambda>r. case request_states estate (req_id r) of
             None \<Rightarrow> []
           | Some rst \<Rightarrow> concat (map (\<lambda>e. announced (mstates e ! 0)) (filter ?P (entries rst)))"
  note r = UpdatePrefixCache_Inr[OF run dist]
  have whole: "(\<forall>rs \<in> ran (request_states estate). list_all watermark_ok (entries rs)) \<longrightarrow>
     (\<forall>rs \<in> ran (request_states estate'). list_all watermark_ok (entries rs))"
    using UpdatePrefixCache_watermark_ok[OF run] by blast
  have m0: "mstates ?e ! 0 = mstate0" "tl (mstates ?e) = others" using ms by simp_all
  have hs: "HasSequence ?pc ?sid" using held by (simp add: HasSequence_def)
  from r req rs have rs': "request_states estate' (req_id req) =
      Some \<lparr>entries = map (settled_entry ?pc) (entries rstate)\<rparr>" by fastforce
  have ent: "map (settled_entry ?pc) (entries rstate) ! i =
      ?e\<lparr>mstates := settled mstate0 # others\<rparr>"
    using i hs by (simp add: settled_entry_def m0)
  have seq: "pc_sequences (prefix_cache estate') ?sid = Some (tokens_held @ announced mstate0)"
    if uniq: "\<forall>r \<in> set requests. \<forall>rst j.
                 request_states estate (req_id r) = Some rst \<and> j < length (entries rst) \<and>
                 internal_id (mstates (entries rst ! j) ! 0) = internal_id mstate0 \<longrightarrow>
                 r = req \<and> j = i"
  proof -
    have own: "filter ?P (entries rstate) = [?e]"
    proof (rule filter_single[OF i])
      show "?P ?e" using m0 by simp
      show "\<forall>j<length (entries rstate). ?P (entries rstate ! j) \<longrightarrow> j = i"
        using uniq req rs by blast
    qed
    have other: "\<forall>y \<in> set requests. y \<noteq> req \<longrightarrow> ?f y = []"
    proof (intro ballI impI)
      fix y assume y: "y \<in> set requests" and ne: "y \<noteq> req"
      show "?f y = []"
      proof (cases "request_states estate (req_id y)")
        case None
        then show ?thesis by simp
      next
        case (Some rst)
        have "filter ?P (entries rst) = []"
        proof (rule ccontr)
          assume "filter ?P (entries rst) \<noteq> []"
          then obtain e where "e \<in> set (entries rst)" "?P e"
            by (auto simp: filter_empty_conv)
          then obtain j where "j < length (entries rst)" "?P (entries rst ! j)"
            by (auto simp: in_set_conv_nth)
          with uniq y Some have "y = req" by blast
          with ne show False by simp
        qed
        with Some show ?thesis by simp
      qed
    qed
    from dist have dr: "distinct requests" by (rule distinct_map[THEN iffD1, THEN conjunct1])
    have "concat (map ?f requests) = ?f req"
      by (rule concat_map_single[OF req dr other])
    also have "\<dots> = announced mstate0" using rs own m0 by simp
    finally have tot: "concat (map ?f requests) = announced mstate0" .
    from r have "pc_sequences (prefix_cache estate') ?sid =
        map_option (\<lambda>t. t @ concat (map ?f requests)) (pc_sequences ?pc ?sid)" by blast
    with tot held show ?thesis by simp
  qed
  have toks: "\<forall>d \<in> set (prefilled_inputs mstate0). \<exists>ids. d = TokenData ids"
    using UpdatePrefixCache_tokens[OF run dist req rs, of ?e] i hs m0 by simp
  define mark where "mark =
    (if cached_committed_tokens mstate0 < int (length (committed_tokens mstate0)) - 1
     then int (length (committed_tokens mstate0)) - 1 else cached_committed_tokens mstate0)"
  define pushed where "pushed =
    (if cached_committed_tokens mstate0 < int (length (committed_tokens mstate0)) - 1
     then map (\<lambda>tok. fst (sampled_token_id tok))
             (take (length (committed_tokens mstate0) - 1 - nat (cached_committed_tokens mstate0))
                (drop (nat (cached_committed_tokens mstate0)) (committed_tokens mstate0)))
     else [])"
  have s: "settled mstate0 = mstate0\<lparr>prefilled_inputs := [], cached_committed_tokens := mark\<rparr>"
    by (simp add: settled_def mark_def)
  have an: "announced mstate0 = concat (map token_ids (prefilled_inputs mstate0)) @ pushed"
    by (simp add: announced_def pushed_def)
  have bnd: "0 \<le> mark" "mark \<le> max 0 (int (length (committed_tokens mstate0)) - 1)"
    using inv by (auto simp: mark_def)
  have "\<exists>rstate' mark pushed.
      request_states estate' (req_id req) = Some rstate' \<and>
      length (entries rstate') = length (entries rstate) \<and>
      entries rstate' ! i =
        (entries rstate ! i)\<lparr>mstates :=
           mstate0\<lparr>prefilled_inputs := [], cached_committed_tokens := mark\<rparr> # others\<rparr> \<and>
      (\<forall>d \<in> set (prefilled_inputs mstate0). \<exists>ids. d = TokenData ids) \<and>
      ((\<forall>r \<in> set requests. \<forall>rst j.
          request_states estate (req_id r) = Some rst \<and> j < length (entries rst) \<and>
          internal_id (mstates (entries rst ! j) ! 0) = internal_id mstate0 \<longrightarrow>
          r = req \<and> j = i) \<longrightarrow>
       pc_sequences (prefix_cache estate') (internal_id mstate0) =
         Some (tokens_held @ concat (map token_ids (prefilled_inputs mstate0)) @ pushed)) \<and>
      0 \<le> mark \<and> mark \<le> max 0 (int (length (committed_tokens mstate0)) - 1) \<and>
      (cached_committed_tokens mstate0 < int (length (committed_tokens mstate0)) - 1 \<longrightarrow>
         pushed = map (\<lambda>tok. fst (sampled_token_id tok))
                    (take (length (committed_tokens mstate0) - 1 -
                           nat (cached_committed_tokens mstate0))
                       (drop (nat (cached_committed_tokens mstate0)) (committed_tokens mstate0))) \<and>
         mark = int (length (committed_tokens mstate0)) - 1) \<and>
      (\<not> cached_committed_tokens mstate0 < int (length (committed_tokens mstate0)) - 1 \<longrightarrow>
         pushed = [] \<and> mark = cached_committed_tokens mstate0)"
  proof (intro exI[of _ "\<lparr>entries = map (settled_entry ?pc) (entries rstate)\<rparr>"]
      exI[of _ mark] exI[of _ pushed] conjI)
    show "request_states estate' (req_id req) =
        Some \<lparr>entries = map (settled_entry ?pc) (entries rstate)\<rparr>" by (rule rs')
    show "length (entries \<lparr>entries = map (settled_entry ?pc) (entries rstate)\<rparr>) =
        length (entries rstate)" by simp
    show "entries \<lparr>entries = map (settled_entry ?pc) (entries rstate)\<rparr> ! i =
        ?e\<lparr>mstates := mstate0\<lparr>prefilled_inputs := [], cached_committed_tokens := mark\<rparr> # others\<rparr>"
      using ent s by simp
    show "\<forall>d \<in> set (prefilled_inputs mstate0). \<exists>ids. d = TokenData ids" by (rule toks)
    show "(\<forall>r \<in> set requests. \<forall>rst j.
          request_states estate (req_id r) = Some rst \<and> j < length (entries rst) \<and>
          internal_id (mstates (entries rst ! j) ! 0) = internal_id mstate0 \<longrightarrow>
          r = req \<and> j = i) \<longrightarrow>
       pc_sequences (prefix_cache estate') ?sid =
         Some (tokens_held @ concat (map token_ids (prefilled_inputs mstate0)) @ pushed)"
      using seq an by simp
    show "0 \<le> mark" "mark \<le> max 0 (int (length (committed_tokens mstate0)) - 1)"
      by (rule bnd)+
    show "cached_committed_tokens mstate0 < int (length (committed_tokens mstate0)) - 1 \<longrightarrow>
         pushed = map (\<lambda>tok. fst (sampled_token_id tok))
                    (take (length (committed_tokens mstate0) - 1 -
                           nat (cached_committed_tokens mstate0))
                       (drop (nat (cached_committed_tokens mstate0)) (committed_tokens mstate0))) \<and>
         mark = int (length (committed_tokens mstate0)) - 1"
      by (simp add: pushed_def mark_def)
    show "\<not> cached_committed_tokens mstate0 < int (length (committed_tokens mstate0)) - 1 \<longrightarrow>
         pushed = [] \<and> mark = cached_committed_tokens mstate0"
      by (simp add: pushed_def mark_def)
  qed
  with whole show ?thesis by blast
qed



theorem UpdatePrefixCache_watermark_witness:
  "\<exists>e'. UpdatePrefixCache [ex_request] ex_estate = Inr e' \<and>
     distinct (map req_id [ex_request]) \<and>
     request_states ex_estate (req_id ex_request) = Some \<lparr>entries = [ex_entry ex_request 4]\<rparr> \<and>
     mstates (ex_entry ex_request 4) = ex_mstate 4 # [] \<and>
     pc_sequences (prefix_cache ex_estate) (internal_id (ex_mstate 4)) = Some [1, 2] \<and>
     prefilled_inputs (ex_mstate 4) = [TokenData [1, 2, 3]] \<and>
     map (\<lambda>tok. fst (sampled_token_id tok)) (committed_tokens (ex_mstate 4)) = [7, 8, 9] \<and>
     cached_committed_tokens (ex_mstate 4) = 0 \<and>
     request_states e' ''r1'' =
       Some \<lparr>entries = [(ex_entry ex_request 4)\<lparr>mstates :=
          [(ex_mstate 4)\<lparr>prefilled_inputs := [], cached_committed_tokens := 2\<rparr>]\<rparr>]\<rparr> \<and>
     pc_sequences (prefix_cache e') 4 = Some [1, 2, 1, 2, 3, 7, 8]"
proof -
  from ex_update obtain e' where run: "UpdatePrefixCache [ex_request] ex_estate = Inr e'"
    by blast
  let ?rstate = "\<lparr>entries = [ex_entry ex_request 4]\<rparr>"
  have dist: "distinct (map req_id [ex_request])" by simp
  have req: "ex_request \<in> set [ex_request]" by simp
  have rs: "request_states ex_estate (req_id ex_request) = Some ?rstate"
    by (simp add: ex_estate_def ex_request_def)
  have i: "0 < length (entries ?rstate)" by simp
  have ms: "mstates (entries ?rstate ! 0) = ex_mstate 4 # []" by (simp add: ex_entry_def)
  have held: "pc_sequences (prefix_cache ex_estate) (internal_id (ex_mstate 4)) = Some [1, 2]"
    by (simp add: ex_estate_def ex_cache_def ex_mstate_def)
  have uniq: "\<forall>r \<in> set [ex_request]. \<forall>rst j.
       request_states ex_estate (req_id r) = Some rst \<and> j < length (entries rst) \<and>
       internal_id (mstates (entries rst ! j) ! 0) = internal_id (ex_mstate 4) \<longrightarrow>
       r = ex_request \<and> j = 0"
    using rs by auto
  have inv: "0 \<le> cached_committed_tokens (ex_mstate 4)"
    "cached_committed_tokens (ex_mstate 4) \<le> max 0 (int (length (committed_tokens (ex_mstate 4))) - 1)"
    by (simp_all add: ex_mstate_def)
  have f: "prefilled_inputs (ex_mstate 4) = [TokenData [1, 2, 3]]"
    "map (\<lambda>tok. fst (sampled_token_id tok)) (committed_tokens (ex_mstate 4)) = [7, 8, 9]"
    "cached_committed_tokens (ex_mstate 4) = 0" "internal_id (ex_mstate 4) = 4"
    "length (committed_tokens (ex_mstate 4)) = 3"
    by (simp_all add: ex_mstate_def ex_token_def)
  from UpdatePrefixCache_watermark[OF run dist req rs i ms held inv, THEN conjunct1] uniq
  obtain rstate' mark pushed where
    a: "request_states e' (req_id ex_request) = Some rstate'"
    and b: "length (entries rstate') = length (entries ?rstate)"
    and c: "entries rstate' ! 0 = (entries ?rstate ! 0)\<lparr>mstates :=
           (ex_mstate 4)\<lparr>prefilled_inputs := [], cached_committed_tokens := mark\<rparr> # []\<rparr>"
    and d: "pc_sequences (prefix_cache e') (internal_id (ex_mstate 4)) =
        Some ([1, 2] @ concat (map token_ids (prefilled_inputs (ex_mstate 4))) @ pushed)"
    and e: "cached_committed_tokens (ex_mstate 4) < int (length (committed_tokens (ex_mstate 4))) - 1 \<longrightarrow>
         pushed = map (\<lambda>tok. fst (sampled_token_id tok))
                    (take (length (committed_tokens (ex_mstate 4)) - 1 -
                           nat (cached_committed_tokens (ex_mstate 4)))
                       (drop (nat (cached_committed_tokens (ex_mstate 4)))
                          (committed_tokens (ex_mstate 4)))) \<and>
         mark = int (length (committed_tokens (ex_mstate 4))) - 1"
    by blast
  from e have mk: "mark = 2" and pu: "pushed = [7, 8]"
    by (simp_all add: ex_mstate_def ex_token_def)
  from b c have "entries rstate' = [(ex_entry ex_request 4)\<lparr>mstates :=
          [(ex_mstate 4)\<lparr>prefilled_inputs := [], cached_committed_tokens := mark\<rparr>]\<rparr>]"
    by (cases "entries rstate'") simp_all
  then have "rstate' = \<lparr>entries = [(ex_entry ex_request 4)\<lparr>mstates :=
          [(ex_mstate 4)\<lparr>prefilled_inputs := [], cached_committed_tokens := 2\<rparr>]\<rparr>]\<rparr>"
    using mk by (cases rstate') simp
  with a have r1: "request_states e' ''r1'' =
       Some \<lparr>entries = [(ex_entry ex_request 4)\<lparr>mstates :=
          [(ex_mstate 4)\<lparr>prefilled_inputs := [], cached_committed_tokens := 2\<rparr>]\<rparr>]\<rparr>"
    by (simp add: ex_request_def)
  from d pu f have r2: "pc_sequences (prefix_cache e') 4 = Some [1, 2, 1, 2, 3, 7, 8]"
    by simp
  from run dist rs ms held f r1 r2 show ?thesis by simp
qed


subsection \<open>Preemption of the last running entry\<close>

lemma FindLastAlive_props:
  "FindLastAlive es b \<noteq> - 1 \<Longrightarrow>
   0 \<le> FindLastAlive es b \<and> nat (FindLastAlive es b) < b \<and>
   status (es ! nat (FindLastAlive es b)) = kAlive \<and>
   (\<forall>j. nat (FindLastAlive es b) < j \<and> j < b \<longrightarrow> status (es ! j) \<noteq> kAlive)"
proof (induction b)
  case 0
  then show ?case by simp
next
  case (Suc b)
  show ?case
  proof (cases "status (es ! b) = kAlive")
    case True
    then show ?thesis by (auto simp: less_Suc_eq)
  next
    case False
    with Suc.prems have ne: "FindLastAlive es b \<noteq> - 1" by simp
    from Suc.IH[OF ne] False show ?thesis
      by (auto simp: less_Suc_eq)
  qed
qed

lemma Preempt_Inr_ex:
  assumes "PreemptLastRunningRequestStateEntry estate models workspace =
             Inr (rsentry', estate', models', workspace')"
  shows "\<exists>rstate k mstate0 others.
    running_queue estate \<noteq> [] \<and>
    request_states estate (req_id (last (running_queue estate))) = Some rstate \<and>
    FindLastAlive (entries rstate) (length (entries rstate)) = int k \<and>
    k < length (entries rstate) \<and> status (entries rstate ! k) = kAlive \<and>
    mstates (entries rstate ! k) = mstate0 # others"
proof -
  from assms have rq: "running_queue estate \<noteq> []"
    by (auto simp: PreemptLastRunningRequestStateEntry_def split: if_splits)
  from assms rq obtain rstate where
    rs: "request_states estate (req_id (last (running_queue estate))) = Some rstate"
    by (auto simp: PreemptLastRunningRequestStateEntry_def GetRequestState_def
        split: option.splits)
  let ?idx = "FindLastAlive (entries rstate) (length (entries rstate))"
  from assms rq rs have ne: "?idx \<noteq> - 1"
    by (auto simp: PreemptLastRunningRequestStateEntry_def GetRequestState_def Let_def
        split: if_splits)
  from FindLastAlive_props[OF ne] obtain k where k: "?idx = int k"
    and klt: "k < length (entries rstate)" and alive: "status (entries rstate ! k) = kAlive"
    by (metis nat_0_le)
  from assms rq rs ne k obtain mstate0 others where
    ms: "mstates (entries rstate ! k) = mstate0 # others"
    by (cases "mstates (entries rstate ! k)")
       (auto simp: PreemptLastRunningRequestStateEntry_def GetRequestState_def Let_def)
  from rq rs k klt alive ms show ?thesis by blast
qed

lemma Preempt_Inr_fields:
  assumes res: "PreemptLastRunningRequestStateEntry estate models workspace =
             Inr (rsentry', estate', models', workspace')"
    and rs: "request_states estate (req_id (last (running_queue estate))) = Some rstate"
    and k: "FindLastAlive (entries rstate) (length (entries rstate)) = int k"
    and ms: "mstates (entries rstate ! k) = mstate0 # others"
  shows "\<exists>mstates1.
    PreemptMStates (last (running_queue estate)) (parent_idx (entries rstate ! k)) workspace
      (mstate0 # others) = Inr (mstates1, workspace') \<and>
    rsentry' = (entries rstate ! k)\<lparr>status := kPending,
      mstates := map (\<lambda>m. m\<lparr>internal_id := fst (GetNewId (id_manager estate))\<rparr>) mstates1\<rparr> \<and>
    prefix_cache estate' =
        (if HasSequence (prefix_cache estate) (internal_id (mstates1 ! 0))
         then RecycleSequence (internal_id (mstates1 ! 0)) False (prefix_cache estate)
         else prefix_cache estate) \<and>
    models' =
      (if HasSequence (prefix_cache estate) (internal_id (mstates1 ! 0))
       then RecycledSlots (internal_id (mstates1 ! 0)) False models
       else RemoveRequestFromModel (internal_id (mstates1 ! 0)) models)"
    and "running_queue estate' =
        (if k = 0 then butlast (running_queue estate) else running_queue estate)"
    and "waiting_queue estate' =
        (if inputs mstate0 = [] \<and> int k = int (length (entries rstate)) - 1
         then last (running_queue estate) # waiting_queue estate
         else waiting_queue estate)"
    and "request_states estate' = (request_states estate)
        (req_id (last (running_queue estate)) \<mapsto>
           rstate\<lparr>entries := (entries rstate)[k := rsentry']\<rparr>)"
    and "id_manager estate' = snd (GetNewId (id_manager estate))"
    and "stats estate' = stats estate"
proof -
  from res have rq: "running_queue estate \<noteq> []"
    by (auto simp: PreemptLastRunningRequestStateEntry_def split: if_splits)
  from res rq rs k ms obtain mstates1 where
    pm: "PreemptMStates (last (running_queue estate)) (parent_idx (entries rstate ! k)) workspace
      (mstate0 # others) = Inr (mstates1, workspace')"
    by (auto simp: PreemptLastRunningRequestStateEntry_def GetRequestState_def Let_def
        split: sum.splits if_splits)
  from res rq rs k ms pm show "\<exists>mstates1.
    PreemptMStates (last (running_queue estate)) (parent_idx (entries rstate ! k)) workspace
      (mstate0 # others) = Inr (mstates1, workspace') \<and>
    rsentry' = (entries rstate ! k)\<lparr>status := kPending,
      mstates := map (\<lambda>m. m\<lparr>internal_id := fst (GetNewId (id_manager estate))\<rparr>) mstates1\<rparr> \<and>
    prefix_cache estate' =
        (if HasSequence (prefix_cache estate) (internal_id (mstates1 ! 0))
         then RecycleSequence (internal_id (mstates1 ! 0)) False (prefix_cache estate)
         else prefix_cache estate) \<and>
    models' =
      (if HasSequence (prefix_cache estate) (internal_id (mstates1 ! 0))
       then RecycledSlots (internal_id (mstates1 ! 0)) False models
       else RemoveRequestFromModel (internal_id (mstates1 ! 0)) models)"
    by (auto simp: PreemptLastRunningRequestStateEntry_def GetRequestState_def Let_def
        split: if_splits)
  from res rq rs k ms pm show "running_queue estate' =
        (if k = 0 then butlast (running_queue estate) else running_queue estate)"
    by (auto simp: PreemptLastRunningRequestStateEntry_def GetRequestState_def Let_def
        split: if_splits)
  from res rq rs k ms pm show "waiting_queue estate' =
        (if inputs mstate0 = [] \<and> int k = int (length (entries rstate)) - 1
         then last (running_queue estate) # waiting_queue estate
         else waiting_queue estate)"
    by (auto simp: PreemptLastRunningRequestStateEntry_def GetRequestState_def Let_def
        split: if_splits)
  from res rq rs k ms pm show "request_states estate' = (request_states estate)
        (req_id (last (running_queue estate)) \<mapsto>
           rstate\<lparr>entries := (entries rstate)[k := rsentry']\<rparr>)"
    by (auto simp: PreemptLastRunningRequestStateEntry_def GetRequestState_def Let_def
        split: if_splits)
  from res rq rs k ms pm show "id_manager estate' = snd (GetNewId (id_manager estate))"
    by (auto simp: PreemptLastRunningRequestStateEntry_def GetRequestState_def Let_def
        split: if_splits)
  from res rq rs k ms pm show "stats estate' = stats estate"
    by (auto simp: PreemptLastRunningRequestStateEntry_def GetRequestState_def Let_def
        split: if_splits)
qed

lemma PreemptMState_fields:
  assumes "PreemptMState req parent workspace mstate = Inr (mstate', workspace')"
  shows "num_prefilled_tokens mstate' = 0 \<and> prefilled_inputs mstate' = [] \<and>
    cached_committed_tokens mstate' = 0 \<and>
    committed_tokens mstate' = committed_tokens mstate \<and>
    internal_id mstate' = internal_id mstate \<and>
    RebuildInputs req parent (map (\<lambda>tok. fst (sampled_token_id tok)) (committed_tokens mstate)) =
      Inr (inputs mstate')"
  using assms
  by (cases workspace)
     (auto simp: PreemptMState_def Let_def RemoveAllDraftTokens_def split: sum.splits)

lemma PreemptMStates_nth:
  assumes "PreemptMStates req parent workspace ms = Inr (ms', workspace')"
  shows "length ms' = length ms \<and>
    (\<forall>j < length ms. \<exists>w1 w2. PreemptMState req parent w1 (ms ! j) = Inr (ms' ! j, w2))"
  using assms
proof (induction ms arbitrary: workspace ms')
  case Nil
  then show ?case by simp
next
  case (Cons m ms)
  from Cons.prems obtain m1 w1 rest1 where
    h: "PreemptMState req parent workspace m = Inr (m1, w1)"
    and t: "PreemptMStates req parent w1 ms = Inr (rest1, workspace')"
    and eq: "ms' = m1 # rest1"
    by (auto split: sum.splits)
  from Cons.IH[OF t] have len: "length rest1 = length ms"
    and nth: "\<forall>j < length ms. \<exists>w1 w2. PreemptMState req parent w1 (ms ! j) = Inr (rest1 ! j, w2)"
    by simp_all
  show ?case
  proof (intro conjI allI impI)
    show "length ms' = length (m # ms)" using eq len by simp
  next
    fix j assume "j < length (m # ms)"
    then show "\<exists>w1 w2. PreemptMState req parent w1 ((m # ms) ! j) = Inr (ms' ! j, w2)"
      using h nth eq by (cases j) auto
  qed
qed

lemma list_update_last:
  "xs \<noteq> [] \<Longrightarrow> xs[length xs - Suc 0 := y] = butlast xs @ [y]"
  by (induction xs rule: rev_induct) simp_all

lemma narrow_to_int_fits:
  "- (2 ^ 31) \<le> x \<Longrightarrow> x < 2 ^ 31 \<Longrightarrow> narrow_to_int x = x"
  unfolding narrow_to_int_def
  by (simp add: sint_sbintrunc' signed_take_bit_int_eq_self)

lemma map_narrow_to_int_fits:
  "list_all (\<lambda>x. - (2 ^ 31) \<le> x \<and> x < 2 ^ 31) ids \<Longrightarrow> map narrow_to_int ids = ids"
  by (induction ids) (simp_all add: narrow_to_int_fits)

lemma RebuildInputs_spec_preempted_inputs:
  assumes "RebuildInputs req parent cids = Inr xs"
    and "parent = - 1 \<longrightarrow> fits_int (last (req_inputs req))"
  shows "xs = spec_preempted_inputs req parent cids"
  using assms
  by (auto simp: RebuildInputs_def spec_preempted_inputs_def list_update_last
      map_narrow_to_int_fits split: if_splits Data.splits)

lemma GetNewId_fresh:
  "i \<notin> set (available_ids m) \<Longrightarrow> i < id_cnt m \<Longrightarrow> fst (GetNewId m) \<noteq> i"
  by (auto simp: GetNewId_def)

lemma HasSequence_RecycleSequence_eager [simp]:
  "\<not> HasSequence (RecycleSequence seq_id False pc) seq_id"
  by (simp add: HasSequence_def RecycleSequence_def)

text \<open>
  The preemption returns when the running queue is not empty, its last request has a state
  with an alive entry that has a model state, and, if this entry is the root, the request
  has inputs.
\<close>

lemma PreemptMState_returns:
  assumes "parent = - 1 \<longrightarrow> req_inputs req \<noteq> []"
  shows "\<exists>m1 w1. PreemptMState req parent w m = Inr (m1, w1)"
proof -
  have rb: "\<exists>xs. RebuildInputs req parent cids = Inr xs" for cids
    using assms by (auto simp: RebuildInputs_def split: Data.splits)
  define cleared where "cleared =
    (case w of None \<Rightarrow> (m, None)
     | Some ws \<Rightarrow> (snd (RemoveAllDraftTokens m), Some (FreeSlots (fst (RemoveAllDraftTokens m)) ws)))"
  from rb obtain xs where
    "RebuildInputs req parent
       (map (\<lambda>tok. fst (sampled_token_id tok)) (committed_tokens (fst cleared))) = Inr xs"
    by blast
  then show ?thesis
    unfolding PreemptMState_def Let_def cleared_def by simp
qed

lemma PreemptMStates_returns:
  assumes "parent = - 1 \<longrightarrow> req_inputs req \<noteq> []"
  shows "\<exists>ms' w'. PreemptMStates req parent w ms = Inr (ms', w')"
proof (induction ms arbitrary: w)
  case Nil
  then show ?case by simp
next
  case (Cons m ms)
  from PreemptMState_returns[OF assms] obtain m1 w1 where
    h: "PreemptMState req parent w m = Inr (m1, w1)" by blast
  from Cons.IH[of w1] obtain ms' w' where "PreemptMStates req parent w1 ms = Inr (ms', w')"
    by blast
  with h show ?case by simp
qed

lemma Preempt_returns:
  assumes rq: "running_queue estate \<noteq> []"
    and rs: "request_states estate (req_id (last (running_queue estate))) = Some rstate"
    and k: "FindLastAlive (entries rstate) (length (entries rstate)) = int k"
    and ms: "mstates (entries rstate ! k) = mstate0 # others"
    and inp: "parent_idx (entries rstate ! k) = - 1 \<longrightarrow>
              req_inputs (last (running_queue estate)) \<noteq> []"
  shows "\<exists>r e m w. PreemptLastRunningRequestStateEntry estate models workspace = Inr (r, e, m, w)"
proof -
  from PreemptMStates_returns[OF inp] obtain ms' w' where
    pm: "PreemptMStates (last (running_queue estate)) (parent_idx (entries rstate ! k)) workspace
       (mstate0 # others) = Inr (ms', w')"
    by blast
  have ne: "int k \<noteq> - 1" by simp
  show ?thesis
    unfolding PreemptLastRunningRequestStateEntry_def GetRequestState_def Let_def
    using rq rs k ms pm ne by simp
qed


lemma ex_preempt:
  "\<exists>r e m w. PreemptLastRunningRequestStateEntry ex_estate ex_models None = Inr (r, e, m, w)"
  by (simp add: PreemptLastRunningRequestStateEntry_def GetRequestState_def ex_defs Let_def
      PreemptMState_def RebuildInputs_def)

text \<open>
  The narrowing of line 261 at work: an id of the last block of the request that is not a
  value of \<^verbatim>\<open>int\<close> comes back changed in the rebuilt inputs.
\<close>

lemma RebuildInputs_narrows:
  "RebuildInputs \<lparr>req_id = ''r'', req_inputs = [TokenData [4294967297]], generation_cfg = ex_cfg\<rparr>
     (- 1) [7, 8, 9] = Inr [TokenData [1, 7, 8, 9]]"
  by (simp add: RebuildInputs_def narrow_to_int_def)

lemma ex_preempt_resident:
  "\<exists>r e w. PreemptLastRunningRequestStateEntry ex_estate ex_resident_models None =
     Inr (r, e, [\<lparr>kv_sequences = {5}\<rparr>, \<lparr>kv_sequences = {}\<rparr>], w)"
  by (simp add: PreemptLastRunningRequestStateEntry_def GetRequestState_def ex_defs Let_def
      PreemptMState_def RebuildInputs_def HasSequence_def RecycledSlots_def RemoveSequence_def
      ex_resident_models_def)

text \<open>
  C4. When the preemption returns the entry \<open>rsentry'\<close>, taken from index \<open>k\<close> of the
  state of the last running request: \<open>k\<close> is the index of the last entry that was alive;
  the status of \<open>rsentry'\<close> is \<open>kPending\<close>; every
  model state has \<open>num_prefilled_tokens = 0\<close>, no prefilled inputs, the watermark 0, its
  committed tokens as before, and the inputs the specification describes; the old sequence
  id is released by \<open>RecycleSequence\<close> with \<open>lazy = False\<close> when the prefix cache held
  it, which drops it from the prefix cache and frees its slots in every model, and by
  removal from every model otherwise, after which neither the prefix cache nor a
  model has it; every model state carries the id that \<open>GetNewId\<close> returned, which differs
  from the old one. Two facts about the state before are assumed: the ids of the entry are
  allocated (not in the free pool, below the counter of the ID manager), and, when the
  entry is the root, the token ids of the last block of the request are values of
  \<^verbatim>\<open>int\<close>, as the 32-bit token ids of the specification are (\<open>fits_int\<close>).
\<close>

theorem Preempt_entry_reset:
  assumes res: "PreemptLastRunningRequestStateEntry estate models workspace =
             Inr (rsentry', estate', models', workspace')"
    and rs: "request_states estate (req_id (last (running_queue estate))) = Some rstate"
    and k: "FindLastAlive (entries rstate) (length (entries rstate)) = int k"
    and live: "\<forall>m \<in> set (mstates (entries rstate ! k)).
                 internal_id m \<notin> set (available_ids (id_manager estate)) \<and>
                 internal_id m < id_cnt (id_manager estate)"
    and fits: "parent_idx (entries rstate ! k) = - 1 \<longrightarrow>
                 fits_int (last (req_inputs (last (running_queue estate))))"
  shows "k < length (entries rstate) \<and>
    status (entries rstate ! k) = kAlive \<and>
    (\<forall>j. k < j \<and> j < length (entries rstate) \<longrightarrow> status (entries rstate ! j) \<noteq> kAlive) \<and>
    status rsentry' = kPending \<and>
    request_states estate' (req_id (last (running_queue estate))) =
      Some (rstate\<lparr>entries := (entries rstate)[k := rsentry']\<rparr>) \<and>
    length (mstates rsentry') = length (mstates (entries rstate ! k)) \<and>
    (\<forall>j < length (mstates (entries rstate ! k)).
       num_prefilled_tokens (mstates rsentry' ! j) = 0 \<and>
       prefilled_inputs (mstates rsentry' ! j) = [] \<and>
       cached_committed_tokens (mstates rsentry' ! j) = 0 \<and>
       committed_tokens (mstates rsentry' ! j) = committed_tokens (mstates (entries rstate ! k) ! j) \<and>
       inputs (mstates rsentry' ! j) =
         spec_preempted_inputs (last (running_queue estate)) (parent_idx (entries rstate ! k))
           (map (\<lambda>tok. fst (sampled_token_id tok))
              (committed_tokens (mstates (entries rstate ! k) ! j))) \<and>
       internal_id (mstates rsentry' ! j) = fst (GetNewId (id_manager estate)) \<and>
       internal_id (mstates rsentry' ! j) \<noteq> internal_id (mstates (entries rstate ! k) ! j)) \<and>
    prefix_cache estate' =
      (if HasSequence (prefix_cache estate) (internal_id (mstates (entries rstate ! k) ! 0))
       then RecycleSequence (internal_id (mstates (entries rstate ! k) ! 0)) False
              (prefix_cache estate)
       else prefix_cache estate) \<and>
    models' =
      (if HasSequence (prefix_cache estate) (internal_id (mstates (entries rstate ! k) ! 0))
       then RecycledSlots (internal_id (mstates (entries rstate ! k) ! 0)) False models
       else RemoveRequestFromModel (internal_id (mstates (entries rstate ! k) ! 0)) models) \<and>
    models' = map (RemoveSequence (internal_id (mstates (entries rstate ! k) ! 0))) models \<and>
    \<not> HasSequence (prefix_cache estate') (internal_id (mstates (entries rstate ! k) ! 0)) \<and>
    (\<forall>model \<in> set models'.
       internal_id (mstates (entries rstate ! k) ! 0) \<notin> kv_sequences model)"
proof -
  let ?e = "entries rstate ! k"
  let ?req = "last (running_queue estate)"
  let ?new = "fst (GetNewId (id_manager estate))"
  from Preempt_Inr_ex[OF res] rs k obtain mstate0 others where
    ms: "mstates ?e = mstate0 # others"
    by auto
  from Preempt_Inr_fields(1)[OF res rs k ms] obtain mstates1 where
    pm: "PreemptMStates ?req (parent_idx ?e) workspace (mstate0 # others) =
           Inr (mstates1, workspace')"
    and rse: "rsentry' = ?e\<lparr>status := kPending,
      mstates := map (\<lambda>m. m\<lparr>internal_id := ?new\<rparr>) mstates1\<rparr>"
    and pc: "prefix_cache estate' =
        (if HasSequence (prefix_cache estate) (internal_id (mstates1 ! 0))
         then RecycleSequence (internal_id (mstates1 ! 0)) False (prefix_cache estate)
         else prefix_cache estate)"
    and md: "models' =
      (if HasSequence (prefix_cache estate) (internal_id (mstates1 ! 0))
       then RecycledSlots (internal_id (mstates1 ! 0)) False models
       else RemoveRequestFromModel (internal_id (mstates1 ! 0)) models)"
    by blast
  from PreemptMStates_nth[OF pm] ms have len: "length mstates1 = length (mstates ?e)"
    and nth: "\<forall>j < length (mstates ?e). \<exists>w1 w2.
        PreemptMState ?req (parent_idx ?e) w1 (mstates ?e ! j) = Inr (mstates1 ! j, w2)"
    by simp_all
  have per: "num_prefilled_tokens (mstates1 ! j) = 0 \<and> prefilled_inputs (mstates1 ! j) = [] \<and>
      cached_committed_tokens (mstates1 ! j) = 0 \<and>
      committed_tokens (mstates1 ! j) = committed_tokens (mstates ?e ! j) \<and>
      internal_id (mstates1 ! j) = internal_id (mstates ?e ! j) \<and>
      inputs (mstates1 ! j) = spec_preempted_inputs ?req (parent_idx ?e)
        (map (\<lambda>tok. fst (sampled_token_id tok)) (committed_tokens (mstates ?e ! j)))"
    if j: "j < length (mstates ?e)" for j
  proof -
    from nth j obtain w1 w2 where
      "PreemptMState ?req (parent_idx ?e) w1 (mstates ?e ! j) = Inr (mstates1 ! j, w2)"
      by blast
    from PreemptMState_fields[OF this] fits show ?thesis
      by (auto dest: RebuildInputs_spec_preempted_inputs)
  qed
  have old: "internal_id (mstates1 ! 0) = internal_id (mstates ?e ! 0)"
    using per[of 0] ms by simp
  have fresh: "?new \<noteq> internal_id (mstates ?e ! j)" if j: "j < length (mstates ?e)" for j
  proof -
    from j have "mstates ?e ! j \<in> set (mstates ?e)" by simp
    with live have "internal_id (mstates ?e ! j) \<notin> set (available_ids (id_manager estate))"
      and "internal_id (mstates ?e ! j) < id_cnt (id_manager estate)" by auto
    then show ?thesis by (rule GetNewId_fresh)
  qed
  have "FindLastAlive (entries rstate) (length (entries rstate)) \<noteq> - 1"
    using k by simp
  from FindLastAlive_props[OF this]
  have c0: "k < length (entries rstate)" "status (entries rstate ! k) = kAlive"
    "\<forall>j. k < j \<and> j < length (entries rstate) \<longrightarrow> status (entries rstate ! j) \<noteq> kAlive"
    unfolding k by simp_all
  have c1: "status rsentry' = kPending" by (subst rse) simp
  have c2: "request_states estate' (req_id ?req) =
      Some (rstate\<lparr>entries := (entries rstate)[k := rsentry']\<rparr>)"
    using Preempt_Inr_fields(4)[OF res rs k ms] by simp
  have c3: "length (mstates rsentry') = length (mstates ?e)" using len by (subst rse) simp
  have c4: "\<forall>j < length (mstates ?e).
       num_prefilled_tokens (mstates rsentry' ! j) = 0 \<and>
       prefilled_inputs (mstates rsentry' ! j) = [] \<and>
       cached_committed_tokens (mstates rsentry' ! j) = 0 \<and>
       committed_tokens (mstates rsentry' ! j) = committed_tokens (mstates ?e ! j) \<and>
       inputs (mstates rsentry' ! j) =
         spec_preempted_inputs ?req (parent_idx ?e)
           (map (\<lambda>tok. fst (sampled_token_id tok)) (committed_tokens (mstates ?e ! j))) \<and>
       internal_id (mstates rsentry' ! j) = ?new \<and>
       internal_id (mstates rsentry' ! j) \<noteq> internal_id (mstates ?e ! j)"
  proof (intro allI impI)
    fix j assume j: "j < length (mstates ?e)"
    with len have "mstates rsentry' ! j = (mstates1 ! j)\<lparr>internal_id := ?new\<rparr>"
      by (subst rse) simp
    with per[OF j] fresh[OF j] show "num_prefilled_tokens (mstates rsentry' ! j) = 0 \<and>
       prefilled_inputs (mstates rsentry' ! j) = [] \<and>
       cached_committed_tokens (mstates rsentry' ! j) = 0 \<and>
       committed_tokens (mstates rsentry' ! j) = committed_tokens (mstates ?e ! j) \<and>
       inputs (mstates rsentry' ! j) =
         spec_preempted_inputs ?req (parent_idx ?e)
           (map (\<lambda>tok. fst (sampled_token_id tok)) (committed_tokens (mstates ?e ! j))) \<and>
       internal_id (mstates rsentry' ! j) = ?new \<and>
       internal_id (mstates rsentry' ! j) \<noteq> internal_id (mstates ?e ! j)"
      by simp
  qed
  have c5: "prefix_cache estate' =
      (if HasSequence (prefix_cache estate) (internal_id (mstates ?e ! 0))
       then RecycleSequence (internal_id (mstates ?e ! 0)) False (prefix_cache estate)
       else prefix_cache estate)"
    using pc old by simp
  have c6: "models' =
      (if HasSequence (prefix_cache estate) (internal_id (mstates ?e ! 0))
       then RecycledSlots (internal_id (mstates ?e ! 0)) False models
       else RemoveRequestFromModel (internal_id (mstates ?e ! 0)) models)"
    using md old by simp
  have c6': "models' = map (RemoveSequence (internal_id (mstates ?e ! 0))) models"
    by (subst c6) (simp add: RecycledSlots_def RemoveRequestFromModel_def)
  have c7: "\<not> HasSequence (prefix_cache estate') (internal_id (mstates ?e ! 0))"
    by (subst c5) simp
  have c8: "\<forall>model \<in> set models'. internal_id (mstates ?e ! 0) \<notin> kv_sequences model"
    by (subst c6') (auto simp: RemoveSequence_def)
  from c0 c1 c2 c3 c4 c5 c6 c6' c7 c8 show ?thesis by blast
qed


theorem Preempt_entry_reset_witness:
  "\<exists>r e m w. PreemptLastRunningRequestStateEntry ex_estate ex_resident_models None =
       Inr (r, e, m, w) \<and>
     request_states ex_estate (req_id (last (running_queue ex_estate))) =
       Some \<lparr>entries = [ex_entry ex_request 4]\<rparr> \<and>
     FindLastAlive [ex_entry ex_request 4] (length [ex_entry ex_request 4]) = int 0 \<and>
     parent_idx (ex_entry ex_request 4) = - 1 \<and>
     map internal_id (mstates (ex_entry ex_request 4)) = [4] \<and>
     fits_int (last (req_inputs (last (running_queue ex_estate)))) \<and>
     HasSequence (prefix_cache ex_estate) 4 \<and>
     ex_resident_models = [\<lparr>kv_sequences = {4, 5}\<rparr>, \<lparr>kv_sequences = {4}\<rparr>] \<and>
     status r = kPending \<and>
     map num_prefilled_tokens (mstates r) = [0] \<and>
     map prefilled_inputs (mstates r) = [[]] \<and>
     map cached_committed_tokens (mstates r) = [0] \<and>
     map inputs (mstates r) = [[TokenData [1, 2, 3, 7, 8, 9]]] \<and>
     map internal_id (mstates r) = [6] \<and>
     \<not> HasSequence (prefix_cache e) 4 \<and>
     m = [\<lparr>kv_sequences = {5}\<rparr>, \<lparr>kv_sequences = {}\<rparr>]"
proof -
  from ex_preempt_resident obtain r e m w where
    res: "PreemptLastRunningRequestStateEntry ex_estate ex_resident_models None =
            Inr (r, e, m, w)"
    by blast
  let ?rstate = "\<lparr>entries = [ex_entry ex_request 4]\<rparr>"
  have rs: "request_states ex_estate (req_id (last (running_queue ex_estate))) = Some ?rstate"
    by (simp add: ex_estate_def ex_request_def)
  have k: "FindLastAlive (entries ?rstate) (length (entries ?rstate)) = int 0"
    by (simp add: ex_entry_def)
  have e0: "entries ?rstate ! 0 = ex_entry ex_request 4" by simp
  have ms: "mstates (ex_entry ex_request 4) = [ex_mstate 4]" by (simp add: ex_entry_def)
  have live: "\<forall>mstate \<in> set (mstates (entries ?rstate ! 0)).
       internal_id mstate \<notin> set (available_ids (id_manager ex_estate)) \<and>
       internal_id mstate < id_cnt (id_manager ex_estate)"
    by (simp add: ms ex_mstate_def ex_estate_def)
  have held: "HasSequence (prefix_cache ex_estate) 4"
    by (simp add: ex_estate_def ex_cache_def HasSequence_def)
  have fit: "fits_int (last (req_inputs (last (running_queue ex_estate))))"
    by (simp add: ex_estate_def ex_request_def)
  then have fits: "parent_idx (entries ?rstate ! 0) = - 1 \<longrightarrow>
       fits_int (last (req_inputs (last (running_queue ex_estate))))"
    by simp
  note inst = Preempt_entry_reset[OF res rs k live fits, unfolded e0 ms]
  have par: "parent_idx (ex_entry ex_request 4) = - 1" by (simp add: ex_entry_def)
  from inst have st: "status r = kPending" and len: "length (mstates r) = 1"
    and pc: "\<not> HasSequence (prefix_cache e) 4"
    and md: "m = [\<lparr>kv_sequences = {5}\<rparr>, \<lparr>kv_sequences = {}\<rparr>]"
    using held
    by (simp_all add: ex_mstate_def ex_resident_models_def RemoveSequence_def RecycledSlots_def)
  from len obtain m0 where m0: "mstates r = [m0]"
    by (cases "mstates r") auto
  from inst m0 have f: "num_prefilled_tokens m0 = 0" "prefilled_inputs m0 = []"
    "cached_committed_tokens m0 = 0" "internal_id m0 = 6"
    "inputs m0 = [TokenData [1, 2, 3, 7, 8, 9]]"
    by (simp_all add: GetNewId_def ex_estate_def spec_preempted_inputs_def ex_entry_def
        ex_request_def ex_mstate_def ex_token_def)
  have rm: "ex_resident_models = [\<lparr>kv_sequences = {4, 5}\<rparr>, \<lparr>kv_sequences = {4}\<rparr>]"
    by (simp add: ex_resident_models_def)
  from res rs k par ms held fit rm st f pc md m0 show ?thesis
    by (simp add: ex_mstate_def)
qed


text \<open>
  C5. At the end of a preemption of the entry at index \<open>k\<close>: the running queue loses its
  last element exactly when \<open>k = 0\<close>, and the request is put in front of the waiting queue
  exactly when the inputs of the first model state were empty before the rebuild and \<open>k\<close>
  is the last index; otherwise the queues are as before.
\<close>

theorem Preempt_queue_updates:
  assumes "PreemptLastRunningRequestStateEntry estate models workspace =
             Inr (rsentry', estate', models', workspace')"
  shows "\<exists>rstate k mstate0 others.
    request_states estate (req_id (last (running_queue estate))) = Some rstate \<and>
    FindLastAlive (entries rstate) (length (entries rstate)) = int k \<and>
    k < length (entries rstate) \<and>
    mstates (entries rstate ! k) = mstate0 # others \<and>
    running_queue estate' =
      (if k = 0 then butlast (running_queue estate) else running_queue estate) \<and>
    waiting_queue estate' =
      (if inputs mstate0 = [] \<and> k = length (entries rstate) - 1
       then last (running_queue estate) # waiting_queue estate
       else waiting_queue estate)"
proof -
  from Preempt_Inr_ex[OF assms] obtain rstate k mstate0 others where
    rs: "request_states estate (req_id (last (running_queue estate))) = Some rstate"
    and k: "FindLastAlive (entries rstate) (length (entries rstate)) = int k"
    and klt: "k < length (entries rstate)"
    and ms: "mstates (entries rstate ! k) = mstate0 # others"
    by blast
  from klt have "int k = int (length (entries rstate)) - 1 \<longleftrightarrow> k = length (entries rstate) - 1"
    by arith
  with Preempt_Inr_fields(2,3)[OF assms rs k ms] rs k klt ms show ?thesis
    by (intro exI[of _ rstate] exI[of _ k] exI[of _ mstate0] exI[of _ others]) simp
qed

theorem Preempt_queue_updates_witness:
  "\<exists>r e m w. PreemptLastRunningRequestStateEntry ex_estate ex_models None = Inr (r, e, m, w) \<and>
     running_queue ex_estate = [ex_pinned_request, ex_request] \<and>
     waiting_queue ex_estate = [] \<and>
     running_queue e = [ex_pinned_request] \<and> waiting_queue e = [ex_request]"
proof -
  from ex_preempt obtain r e m w where
    res: "PreemptLastRunningRequestStateEntry ex_estate ex_models None = Inr (r, e, m, w)"
    by blast
  from Preempt_queue_updates[OF res] obtain rstate k mstate0 others where
    rs: "request_states ex_estate (req_id (last (running_queue ex_estate))) = Some rstate"
    and k: "FindLastAlive (entries rstate) (length (entries rstate)) = int k"
    and ms: "mstates (entries rstate ! k) = mstate0 # others"
    and rq: "running_queue e =
      (if k = 0 then butlast (running_queue ex_estate) else running_queue ex_estate)"
    and wq: "waiting_queue e =
      (if inputs mstate0 = [] \<and> k = length (entries rstate) - 1
       then last (running_queue ex_estate) # waiting_queue ex_estate
       else waiting_queue ex_estate)"
    by blast
  from rs have rstate: "rstate = \<lparr>entries = [ex_entry ex_request 4]\<rparr>"
    by (simp add: ex_estate_def ex_request_def)
  from k rstate have k0: "k = 0" by (simp add: ex_entry_def)
  from ms rstate k0 have m0: "mstate0 = ex_mstate 4" by (simp add: ex_entry_def)
  from rq wq k0 m0 rstate have "running_queue e = [ex_pinned_request]" "waiting_queue e = [ex_request]"
    by (simp_all add: ex_estate_def ex_mstate_def)
  with res show ?thesis by (auto simp: ex_estate_def)
qed


text \<open>
  C10. A preemption changes the ID manager by one \<open>GetNewId\<close> and nothing else: the free
  pool is as before or has lost its last element, so no id is returned to it (the state of
  the ID manager after the preemption is not the result of a \<open>RecycleId\<close>), and the one
  new id is stamped on every model state of the entry. The release of a finished entry,
  in contrast, recycles the id when the prefix cache does not hold the sequence.
\<close>

theorem Preempt_id_allocation:
  assumes "PreemptLastRunningRequestStateEntry estate models workspace =
             Inr (rsentry', estate', models', workspace')"
  shows "id_manager estate' = snd (GetNewId (id_manager estate)) \<and>
    (available_ids (id_manager estate') = available_ids (id_manager estate) \<or>
     available_ids (id_manager estate') = butlast (available_ids (id_manager estate))) \<and>
    (\<forall>i. id_manager estate' \<noteq> RecycleId i (id_manager estate)) \<and>
    (\<forall>m \<in> set (mstates rsentry'). internal_id m = fst (GetNewId (id_manager estate))) \<and>
    (\<forall>finished mstate0 others.
       mstates finished = mstate0 # others \<and>
       \<not> HasSequence (prefix_cache estate) (internal_id mstate0) \<longrightarrow>
       RemoveRequestStateEntry estate models finished =
         Inr (estate\<lparr>id_manager := RecycleId (internal_id mstate0) (id_manager estate)\<rparr>,
              RemoveRequestFromModel (internal_id mstate0) models))"
proof -
  from Preempt_Inr_ex[OF assms] obtain rstate k mstate0 others where
    rs: "request_states estate (req_id (last (running_queue estate))) = Some rstate"
    and k: "FindLastAlive (entries rstate) (length (entries rstate)) = int k"
    and ms: "mstates (entries rstate ! k) = mstate0 # others"
    by blast
  from Preempt_Inr_fields(1)[OF assms rs k ms] obtain mstates1 where
    rse: "rsentry' = (entries rstate ! k)\<lparr>status := kPending,
      mstates := map (\<lambda>m. m\<lparr>internal_id := fst (GetNewId (id_manager estate))\<rparr>) mstates1\<rparr>"
    by blast
  have idm: "id_manager estate' = snd (GetNewId (id_manager estate))"
    by (rule Preempt_Inr_fields(5)[OF assms rs k ms])
  have pool: "available_ids (snd (GetNewId (id_manager estate))) = available_ids (id_manager estate) \<or>
     available_ids (snd (GetNewId (id_manager estate))) = butlast (available_ids (id_manager estate))"
    by (simp add: GetNewId_def)
  have norec: "snd (GetNewId (id_manager estate)) \<noteq> RecycleId i (id_manager estate)" for i
  proof
    assume "snd (GetNewId (id_manager estate)) = RecycleId i (id_manager estate)"
    then have "length (available_ids (snd (GetNewId (id_manager estate)))) =
      length (available_ids (RecycleId i (id_manager estate)))" by simp
    then show False by (simp add: GetNewId_def RecycleId_def split: if_splits)
  qed
  have stamp: "\<forall>m \<in> set (mstates rsentry'). internal_id m = fst (GetNewId (id_manager estate))"
    by (subst rse) auto
  have fin: "\<forall>finished mstate0 others.
       mstates finished = mstate0 # others \<and>
       \<not> HasSequence (prefix_cache estate) (internal_id mstate0) \<longrightarrow>
       RemoveRequestStateEntry estate models finished =
         Inr (estate\<lparr>id_manager := RecycleId (internal_id mstate0) (id_manager estate)\<rparr>,
              RemoveRequestFromModel (internal_id mstate0) models)"
    by (simp add: RemoveRequestStateEntry_def)
  from idm pool norec stamp fin show ?thesis by simp
qed


theorem Preempt_id_allocation_witness:
  "\<exists>r e m w. PreemptLastRunningRequestStateEntry ex_estate ex_models None = Inr (r, e, m, w) \<and>
     id_manager ex_estate = \<lparr>available_ids = [], id_cnt = 6\<rparr> \<and>
     id_manager e = \<lparr>available_ids = [], id_cnt = 7\<rparr> \<and>
     list_all (\<lambda>mstate. internal_id mstate = 6) (mstates r)"
proof -
  from ex_preempt obtain r e m w where
    res: "PreemptLastRunningRequestStateEntry ex_estate ex_models None = Inr (r, e, m, w)"
    by blast
  have idm: "id_manager ex_estate = \<lparr>available_ids = [], id_cnt = 6\<rparr>"
    by (simp add: ex_estate_def)
  from Preempt_id_allocation[OF res] idm
  have "id_manager e = \<lparr>available_ids = [], id_cnt = 7\<rparr>"
    and "list_all (\<lambda>mstate. internal_id mstate = 6) (mstates r)"
    by (simp_all add: GetNewId_def list_all_iff)
  with res idm show ?thesis by blast
qed

subsection \<open>Finalising finished entries\<close>

lemma marked_refl [simp]: "marked es es"
  by (simp add: marked_def)

lemma marked_trans: "marked es es1 \<Longrightarrow> marked es1 es2 \<Longrightarrow> marked es es2"
  unfolding marked_def
proof (intro conjI allI impI)
  assume a: "length es1 = length es \<and>
    (\<forall>i<length es. es1 ! i = es ! i \<or> es1 ! i = (es ! i)\<lparr>status := kFinished\<rparr>)"
    and b: "length es2 = length es1 \<and>
    (\<forall>i<length es1. es2 ! i = es1 ! i \<or> es2 ! i = (es1 ! i)\<lparr>status := kFinished\<rparr>)"
  show "length es2 = length es" using a b by simp
  fix i assume i: "i < length es"
  from a i have "es1 ! i = es ! i \<or> es1 ! i = (es ! i)\<lparr>status := kFinished\<rparr>" by simp
  moreover from a b i have "es2 ! i = es1 ! i \<or> es2 ! i = (es1 ! i)\<lparr>status := kFinished\<rparr>"
    by simp
  ultimately show "es2 ! i = es ! i \<or> es2 ! i = (es ! i)\<lparr>status := kFinished\<rparr>"
    by auto
qed

lemma marked_update:
  "i < length es \<Longrightarrow> marked es (es[i := (es ! i)\<lparr>status := kFinished\<rparr>])"
  by (auto simp: marked_def nth_list_update)

lemma RemoveRequestStateEntry_frame:
  assumes "RemoveRequestStateEntry estate models e = Inr (estate1, models1)"
  shows "request_states estate1 = request_states estate \<and>
    running_queue estate1 = running_queue estate \<and>
    waiting_queue estate1 = waiting_queue estate \<and>
    stats estate1 = stats estate"
  using assms
  by (auto simp: RemoveRequestStateEntry_def split: list.splits if_splits)

lemma AllChildrenFinished_True:
  "AllChildrenFinished es cs = Inr True \<Longrightarrow>
   \<forall>c \<in> set cs. 0 \<le> c \<and> c < int (length es) \<and> status (es ! nat c) = kFinished"
  by (induction cs) (auto split: if_splits)

lemma AllChildrenFinished_False:
  "AllChildrenFinished es cs = Inr False \<Longrightarrow>
   \<exists>c \<in> set cs. 0 \<le> c \<and> c < int (length es) \<and> status (es ! nat c) \<noteq> kFinished"
  by (induction cs) (auto split: if_splits)

lemma post_order_finish_leaf:
  assumes "post_order es" and "i < length es" and "child_indices (es ! i) = []"
  shows "post_order (es[i := (es ! i)\<lparr>status := kFinished\<rparr>])"
  using assms
  by (auto simp: post_order_def nth_list_update)

lemma post_order_finish_parent:
  assumes "post_order es" and "i < length es"
    and "\<forall>c \<in> set (child_indices (es ! i)).
           0 \<le> c \<and> c < int (length es) \<and> status (es ! nat c) = kFinished"
  shows "post_order (es[i := (es ! i)\<lparr>status := kFinished\<rparr>])"
  using assms
  by (auto simp: post_order_def nth_list_update)

text \<open>One turn of the climbing loop, as an equation.\<close>

lemma ClimbFinished_turn:
  assumes "ClimbFinished (Suc fuel) parent es estate models =
             Some (Inr (parent', es', estate', models'))"
    and "parent \<noteq> - 1"
  shows "0 \<le> parent \<and> parent < int (length es) \<and>
    ((AllChildrenFinished es (child_indices (es ! nat parent)) = Inr False \<and>
      parent' = parent \<and> es' = es \<and> estate' = estate \<and> models' = models) \<or>
     (AllChildrenFinished es (child_indices (es ! nat parent)) = Inr True \<and>
      (\<exists>estate1 models1.
         RemoveRequestStateEntry estate models ((es ! nat parent)\<lparr>status := kFinished\<rparr>) =
           Inr (estate1, models1) \<and>
         ClimbFinished fuel (parent_idx (es ! nat parent))
           (es[nat parent := (es ! nat parent)\<lparr>status := kFinished\<rparr>]) estate1 models1 =
           Some (Inr (parent', es', estate', models')))))"
  using assms
  by (auto simp: Let_def split: if_splits sum.splits bool.splits)


lemma ClimbFinished_stop:
  "ClimbFinished fuel parent es estate models = Some (Inr (parent', es', estate', models')) \<Longrightarrow>
   parent = - 1 \<Longrightarrow> parent' = - 1 \<and> es' = es \<and> estate' = estate \<and> models' = models"
  by (cases fuel) auto

lemma ClimbFinished_facts:
  assumes "ClimbFinished fuel parent es estate models =
             Some (Inr (parent', es', estate', models'))"
  shows "marked es es' \<and>
    request_states estate' = request_states estate \<and>
    running_queue estate' = running_queue estate \<and>
    waiting_queue estate' = waiting_queue estate \<and>
    stats estate' = stats estate \<and>
    (post_order es \<longrightarrow> post_order es') \<and>
    (parent' \<noteq> - 1 \<longrightarrow>
       0 \<le> parent' \<and> parent' < int (length es') \<and>
       (\<exists>c \<in> set (child_indices (es' ! nat parent')).
          0 \<le> c \<and> c < int (length es') \<and> status (es' ! nat c) \<noteq> kFinished))"
  using assms
proof (induction fuel arbitrary: parent es estate models)
  case 0
  then show ?case by (auto split: if_splits)
next
  case (Suc fuel)
  show ?case
  proof (cases "parent = - 1")
    case True
    with ClimbFinished_stop[OF Suc.prems] show ?thesis by simp
  next
    case False
    from ClimbFinished_turn[OF Suc.prems False]
    have rng: "0 \<le> parent" "parent < int (length es)"
      and alt: "(AllChildrenFinished es (child_indices (es ! nat parent)) = Inr False \<and>
          parent' = parent \<and> es' = es \<and> estate' = estate \<and> models' = models) \<or>
        (AllChildrenFinished es (child_indices (es ! nat parent)) = Inr True \<and>
         (\<exists>estate1 models1.
           RemoveRequestStateEntry estate models ((es ! nat parent)\<lparr>status := kFinished\<rparr>) =
             Inr (estate1, models1) \<and>
           ClimbFinished fuel (parent_idx (es ! nat parent))
             (es[nat parent := (es ! nat parent)\<lparr>status := kFinished\<rparr>]) estate1 models1 =
             Some (Inr (parent', es', estate', models'))))"
      by simp_all
    from rng have p: "nat parent < length es" by simp
    from alt show ?thesis
    proof (elim disjE conjE exE)
      assume no: "AllChildrenFinished es (child_indices (es ! nat parent)) = Inr False"
        and eq: "parent' = parent" "es' = es" "estate' = estate" "models' = models"
      from AllChildrenFinished_False[OF no] rng eq show ?thesis by simp
    next
      fix estate1 models1
      assume yes: "AllChildrenFinished es (child_indices (es ! nat parent)) = Inr True"
        and rm: "RemoveRequestStateEntry estate models ((es ! nat parent)\<lparr>status := kFinished\<rparr>) =
             Inr (estate1, models1)"
        and rec: "ClimbFinished fuel (parent_idx (es ! nat parent))
             (es[nat parent := (es ! nat parent)\<lparr>status := kFinished\<rparr>]) estate1 models1 =
             Some (Inr (parent', es', estate', models'))"
      let ?es1 = "es[nat parent := (es ! nat parent)\<lparr>status := kFinished\<rparr>]"
      note ih = Suc.IH[OF rec]
      from ih marked_update[OF p] have m: "marked es es'"
        by (blast intro: marked_trans)
      from ih RemoveRequestStateEntry_frame[OF rm]
      have fr: "request_states estate' = request_states estate"
        "running_queue estate' = running_queue estate"
        "waiting_queue estate' = waiting_queue estate"
        "stats estate' = stats estate"
        by simp_all
      have po: "post_order es \<longrightarrow> post_order es'"
      proof
        assume "post_order es"
        from post_order_finish_parent[OF this p AllChildrenFinished_True[OF yes]]
        have "post_order ?es1" .
        with ih show "post_order es'" by simp
      qed
      from ih m fr po show ?thesis by simp
    qed
  qed
qed

text \<open>
  The climb ends when the entries are in topological order (the parent of an entry has a
  smaller index) and the fuel is the index of the first parent plus one, or more.
\<close>

lemma parent_idx_mark:
  "i < length es \<Longrightarrow> parent_idx (es[k := (es ! k)\<lparr>status := s\<rparr>] ! i) = parent_idx (es ! i)"
  by (cases "i = k") simp_all

lemma ClimbFinished_enough_fuel:
  assumes "\<forall>i < length es. - 1 \<le> parent_idx (es ! i) \<and> parent_idx (es ! i) < int i"
    and "- 1 \<le> parent" and "parent < int (length es)" and "nat (parent + 1) \<le> fuel"
  shows "ClimbFinished fuel parent es estate models \<noteq> None"
  using assms
proof (induction fuel arbitrary: parent es estate models)
  case 0
  then show ?case by auto
next
  case (Suc fuel)
  show ?case
  proof (cases "parent = - 1")
    case True
    then show ?thesis by auto
  next
    case False
    then have p: "0 \<le> parent" "nat parent < length es" using Suc.prems(2,3) by auto
    let ?es1 = "es[nat parent := (es ! nat parent)\<lparr>status := kFinished\<rparr>]"
    have topo1: "\<forall>i < length ?es1. - 1 \<le> parent_idx (?es1 ! i) \<and> parent_idx (?es1 ! i) < int i"
      using Suc.prems(1) by (simp add: parent_idx_mark)
    have lo: "- 1 \<le> parent_idx (?es1 ! nat parent)"
      using Suc.prems(1) p by (simp add: parent_idx_mark)
    have "parent_idx (es ! nat parent) < int (nat parent)"
      using Suc.prems(1) p by blast
    then have up: "parent_idx (?es1 ! nat parent) < parent"
      using p by (simp add: parent_idx_mark)
    then have lt: "parent_idx (?es1 ! nat parent) < int (length ?es1)"
      using Suc.prems(3) by simp
    have fu: "nat (parent_idx (?es1 ! nat parent) + 1) \<le> fuel"
      using up Suc.prems(4) p by linarith
    have rec: "ClimbFinished fuel (parent_idx (?es1 ! nat parent)) ?es1 e1 m1 \<noteq> None" for e1 m1
      by (rule Suc.IH[OF topo1 lo lt fu])
    from False p rec show ?thesis
      by (auto simp: Let_def split: sum.splits bool.splits)
  qed
qed


lemma marked_status:
  "marked es es' \<Longrightarrow> i < length es \<Longrightarrow>
   status (es' ! i) = status (es ! i) \<or> status (es' ! i) = kFinished"
  by (auto simp: marked_def)

lemma marked_fields:
  assumes "marked es es'"
  shows "map mstates es' = map mstates es" "map tadd es' = map tadd es"
    "map tprefill_finish es' = map tprefill_finish es"
    "map child_indices es' = map child_indices es"
    "map parent_idx es' = map parent_idx es" "map request es' = map request es"
proof -
  have *: "map f es' = map f es"
    if f: "\<And>e. f (e\<lparr>status := kFinished\<rparr>) = f e" for f :: "RequestStateEntry \<Rightarrow> 'a"
  proof (rule nth_equalityI)
    show "length (map f es') = length (map f es)" using assms by (simp add: marked_def)
  next
    fix i assume "i < length (map f es')"
    then have i: "i < length es" and i': "i < length es'" using assms by (simp_all add: marked_def)
    from assms i have "es' ! i = es ! i \<or> es' ! i = (es ! i)\<lparr>status := kFinished\<rparr>"
      by (simp add: marked_def)
    with f i i' show "map f es' ! i = map f es ! i" by auto
  qed
  show "map mstates es' = map mstates es" by (rule *) simp
  show "map tadd es' = map tadd es" by (rule *) simp
  show "map tprefill_finish es' = map tprefill_finish es" by (rule *) simp
  show "map child_indices es' = map child_indices es" by (rule *) simp
  show "map parent_idx es' = map parent_idx es" by (rule *) simp
  show "map request es' = map request es" by (rule *) simp
qed


lemma FinishAndClimb_Inr:
  assumes fc: "FinishAndClimb fuel ref estate models =
                 Some (Inr (parent, req, es, estate1, models1))"
  shows "\<exists>holder rstate0.
    request_states estate (fst ref) = Some holder \<and>
    snd ref < length (entries holder) \<and>
    child_indices (entries holder ! snd ref) = [] \<and>
    req = request (entries holder ! snd ref) \<and>
    request_states estate (req_id req) = Some rstate0 \<and>
    marked (entries rstate0) es \<and>
    (fst ref = req_id req \<longrightarrow> status (es ! snd ref) = kFinished) \<and>
    request_states estate1 =
      (request_states estate)
        (fst ref \<mapsto> holder\<lparr>entries :=
           (entries holder)[snd ref := (entries holder ! snd ref)\<lparr>status := kFinished\<rparr>]\<rparr>,
         req_id req \<mapsto> \<lparr>entries = es\<rparr>) \<and>
    running_queue estate1 = running_queue estate \<and>
    waiting_queue estate1 = waiting_queue estate \<and>
    stats estate1 = stats estate \<and>
    (parent \<noteq> - 1 \<longrightarrow>
       0 \<le> parent \<and> parent < int (length es) \<and>
       (\<exists>c \<in> set (child_indices (es ! nat parent)).
          0 \<le> c \<and> c < int (length es) \<and> status (es ! nat c) \<noteq> kFinished)) \<and>
    ((\<forall>rs \<in> ran (request_states estate). post_order (entries rs)) \<longrightarrow>
       (\<forall>rs \<in> ran (request_states estate1). post_order (entries rs)))"
proof -
  obtain key idx where ref: "ref = (key, idx)" by (cases ref)
  from fc obtain holder where h: "request_states estate key = Some holder"
    by (auto simp: FinishAndClimb_def ref split: option.splits)
  from fc h have idx: "idx < length (entries holder)"
    and leaf: "child_indices (entries holder ! idx) = []"
    by (auto simp: FinishAndClimb_def ref split: if_splits)
  define rsentry where "rsentry = (entries holder ! idx)\<lparr>status := kFinished\<rparr>"
  define holder1 where "holder1 = holder\<lparr>entries := (entries holder)[idx := rsentry]\<rparr>"
  define estate1a where
    "estate1a = estate\<lparr>request_states := (request_states estate)(key \<mapsto> holder1)\<rparr>"
  have fc': "(case RemoveRequestStateEntry estate1a models rsentry of
       Inl e \<Rightarrow> Some (Inl e)
     | Inr (estate2, models2) \<Rightarrow>
         (case GetRequestState estate2 (request rsentry) of
            Inl e \<Rightarrow> Some (Inl e)
          | Inr rstate \<Rightarrow>
              (case ClimbFinished fuel (parent_idx rsentry) (entries rstate) estate2 models2 of
                 None \<Rightarrow> None
               | Some (Inl e) \<Rightarrow> Some (Inl e)
               | Some (Inr (parent, es, estate3, models3)) \<Rightarrow>
                   Some (Inr (parent, request rsentry, es,
                     estate3\<lparr>request_states := (request_states estate3)
                       (req_id (request rsentry) \<mapsto> rstate\<lparr>entries := es\<rparr>)\<rparr>,
                     models3))))) = Some (Inr (parent, req, es, estate1, models1))"
    unfolding rsentry_def holder1_def estate1a_def
    using fc h idx leaf
    by (simp add: FinishAndClimb_def ref Let_def)
  from fc' obtain estate2 models2 where
    rm: "RemoveRequestStateEntry estate1a models rsentry = Inr (estate2, models2)"
    by (auto split: sum.splits)
  from fc' rm obtain rstate where
    rs: "request_states estate2 (req_id (request rsentry)) = Some rstate"
    by (auto simp: GetRequestState_def split: option.splits)
  from fc' rm rs obtain estate3 where
    climb: "ClimbFinished fuel (parent_idx rsentry) (entries rstate) estate2 models2 =
              Some (Inr (parent, es, estate3, models1))"
    and req: "req = request rsentry"
    and e1: "estate1 = estate3\<lparr>request_states := (request_states estate3)
               (req_id (request rsentry) \<mapsto> rstate\<lparr>entries := es\<rparr>)\<rparr>"
    by (auto simp: GetRequestState_def split: option.splits sum.splits)
  note fr2 = RemoveRequestStateEntry_frame[OF rm]
  note cf = ClimbFinished_facts[OF climb]
  have rs2: "request_states estate2 = (request_states estate)(key \<mapsto> holder1)"
    using fr2 by (simp add: estate1a_def)
  have reqh: "req = request (entries holder ! idx)"
    using req by (simp add: rsentry_def)
  have mh: "marked (entries holder) (entries holder1)"
    using idx by (simp add: holder1_def rsentry_def marked_update)
  obtain rstate0 where rs0: "request_states estate (req_id req) = Some rstate0"
    and m0: "marked (entries rstate0) (entries rstate)"
    and same: "key = req_id req \<longrightarrow> rstate = holder1"
  proof (cases "key = req_id req")
    case True
    with rs rs2 req have "rstate = holder1" by simp
    with True h mh that show ?thesis by simp
  next
    case False
    with rs rs2 req have "request_states estate (req_id req) = Some rstate" by simp
    with False that show ?thesis by simp
  qed
  from cf m0 have mk: "marked (entries rstate0) es" by (blast intro: marked_trans)
  have fin: "key = req_id req \<longrightarrow> status (es ! idx) = kFinished"
  proof
    assume "key = req_id req"
    with same have "entries rstate ! idx = rsentry" using idx by (simp add: holder1_def)
    moreover from idx same \<open>key = req_id req\<close> have "idx < length (entries rstate)"
      by (simp add: holder1_def)
    ultimately show "status (es ! idx) = kFinished"
      using marked_status[of "entries rstate" es idx] cf by (auto simp: rsentry_def)
  qed
  have unit: "rstate\<lparr>entries := es\<rparr> = \<lparr>entries = es\<rparr>" by simp
  have rs1: "request_states estate1 =
      (request_states estate)(key \<mapsto> holder1, req_id req \<mapsto> \<lparr>entries = es\<rparr>)"
    using e1 cf rs2 req unit by simp
  have fr: "running_queue estate1 = running_queue estate"
    "waiting_queue estate1 = waiting_queue estate" "stats estate1 = stats estate"
    using e1 cf fr2 by (simp_all add: estate1a_def)
  have stop: "parent \<noteq> - 1 \<longrightarrow>
       0 \<le> parent \<and> parent < int (length es) \<and>
       (\<exists>c \<in> set (child_indices (es ! nat parent)).
          0 \<le> c \<and> c < int (length es) \<and> status (es ! nat c) \<noteq> kFinished)"
    using cf by simp
  have inv: "(\<forall>rs \<in> ran (request_states estate). post_order (entries rs)) \<longrightarrow>
       (\<forall>rs \<in> ran (request_states estate1). post_order (entries rs))"
  proof (intro impI ballI)
    fix rs assume a: "\<forall>rs \<in> ran (request_states estate). post_order (entries rs)"
      and b: "rs \<in> ran (request_states estate1)"
    from a h have poh: "post_order (entries holder)" by (auto simp: ran_def)
    from post_order_finish_leaf[OF poh idx leaf] have poh1: "post_order (entries holder1)"
      by (simp add: holder1_def rsentry_def)
    have "post_order (entries rstate)"
    proof (cases "key = req_id req")
      case True
      with same poh1 show ?thesis by simp
    next
      case False
      with rs rs2 req have "request_states estate (req_id req) = Some rstate" by simp
      with a show ?thesis by (auto simp: ran_def)
    qed
    with cf have poes: "post_order es" by simp
    from b obtain k where k: "request_states estate1 k = Some rs" by (auto simp: ran_def)
    show "post_order (entries rs)"
    proof (cases "k = req_id req")
      case True
      with k rs1 have "rs = \<lparr>entries = es\<rparr>" by simp
      with poes show ?thesis by simp
    next
      case False
      show ?thesis
      proof (cases "k = key")
        case True
        with False k rs1 poh1 show ?thesis by simp
      next
        case False
        with \<open>k \<noteq> req_id req\<close> k rs1 have "request_states estate k = Some rs" by simp
        with a show ?thesis by (auto simp: ran_def)
      qed
    qed
  qed
  from h idx leaf reqh rs0 mk fin rs1 fr stop inv show ?thesis
    unfolding ref holder1_def rsentry_def
    by (intro exI[of _ holder] exI[of _ rstate0]) simp
qed


lemma SumCommitted_Inr:
  "SumCommitted es = Inr len \<Longrightarrow>
   len = (\<Sum>e\<leftarrow>es. int (length (committed_tokens (mstates e ! 0))))"
  by (induction es arbitrary: len) (auto split: list.splits sum.splits)

lemma RetireRequest_Inr:
  assumes "RetireRequest trequest_finish req es estate = Inr estate2"
  shows "req \<in> set (running_queue estate) \<and> es \<noteq> [] \<and>
    running_queue estate2 = remove1 req (running_queue estate) \<and>
    waiting_queue estate2 = waiting_queue estate \<and>
    request_states estate2 = (request_states estate)(req_id req := None) \<and>
    request_total_prefill_time (stats estate2) =
      request_total_prefill_time (stats estate) +
      real_of_int (tprefill_finish (es ! 0) - tadd (es ! 0)) / 1000000000 \<and>
    request_total_decode_time (stats estate2) =
      request_total_decode_time (stats estate) +
      real_of_int (trequest_finish - tprefill_finish (es ! 0)) / 1000000000 \<and>
    total_decode_length (stats estate2) =
      total_decode_length (stats estate) +
      (\<Sum>e\<leftarrow>es. int (length (committed_tokens (mstates e ! 0)))) -
      cfg_n (generation_cfg req) \<and>
    total_prefill_length (stats estate2) = total_prefill_length (stats estate)"
proof -
  from assms have inq: "req \<in> set (running_queue estate)"
    by (auto simp: RetireRequest_def split: if_splits)
  from assms inq obtain root rest where es: "es = root # rest"
    by (cases es) (auto simp: RetireRequest_def)
  from assms inq es obtain len where len: "SumCommitted es = Inr len"
    by (auto simp: RetireRequest_def split: sum.splits)
  from assms inq es len SumCommitted_Inr[OF len] show ?thesis
    by (auto simp: RetireRequest_def)
qed

lemma ProcessFinished_single:
  "ProcessFinishedRequestStateEntries fuel clock [ref] estate models =
     (case FinishAndClimb fuel ref estate models of
        None \<Rightarrow> None
      | Some (Inl e) \<Rightarrow> Some (Inl e)
      | Some (Inr (parent, req, es, estate1, models1)) \<Rightarrow>
          if parent = - 1 then
            (case RetireRequest (clock 0) req es estate1 of
               Inl e \<Rightarrow> Some (Inl e)
             | Inr estate2 \<Rightarrow> Some (Inr (estate2, models1)))
          else Some (Inr (estate1, models1)))"
  by (simp split: option.splits sum.splits)




text \<open>
  A preemption keeps the post-order invariant as well: it turns an alive entry, which has
  no finished parent, into a pending one.
\<close>

lemma post_order_preempt:
  assumes po: "post_order es" and k: "k < length es" and alive: "status (es ! k) = kAlive"
    and st: "status e' = kPending" and ch: "child_indices e' = child_indices (es ! k)"
  shows "post_order (es[k := e'])"
  unfolding post_order_def
proof (intro allI impI ballI)
  fix p c
  assume p: "p < length (es[k := e'])" and fin: "status (es[k := e'] ! p) = kFinished"
    and c: "c \<in> set (child_indices (es[k := e'] ! p))"
    and rng: "0 \<le> c \<and> c < int (length (es[k := e']))"
  from fin st k have pk: "p \<noteq> k" by (cases "p = k") auto
  with p fin c have p': "p < length es" "status (es ! p) = kFinished"
    "c \<in> set (child_indices (es ! p))" by simp_all
  with po rng have cf: "status (es ! nat c) = kFinished" by (auto simp: post_order_def)
  with alive have "nat c \<noteq> k" by auto
  with cf show "status (es[k := e'] ! nat c) = kFinished" by simp
qed

lemma Preempt_post_order:
  assumes res: "PreemptLastRunningRequestStateEntry estate models workspace =
             Inr (rsentry', estate', models', workspace')"
    and inv: "\<forall>rs \<in> ran (request_states estate). post_order (entries rs)"
  shows "\<forall>rs \<in> ran (request_states estate'). post_order (entries rs)"
proof
  fix rs assume "rs \<in> ran (request_states estate')"
  then obtain key where key: "request_states estate' key = Some rs" by (auto simp: ran_def)
  from Preempt_Inr_ex[OF res] obtain rstate k mstate0 others where
    rst: "request_states estate (req_id (last (running_queue estate))) = Some rstate"
    and k: "FindLastAlive (entries rstate) (length (entries rstate)) = int k"
    and klt: "k < length (entries rstate)" and alive: "status (entries rstate ! k) = kAlive"
    and ms: "mstates (entries rstate ! k) = mstate0 # others"
    by blast
  from Preempt_Inr_fields(1)[OF res rst k ms] have
    st: "status rsentry' = kPending"
    and ch: "child_indices rsentry' = child_indices (entries rstate ! k)"
    by auto
  note rs' = Preempt_Inr_fields(4)[OF res rst k ms]
  show "post_order (entries rs)"
  proof (cases "key = req_id (last (running_queue estate))")
    case True
    with key rs' have "rs = rstate\<lparr>entries := (entries rstate)[k := rsentry']\<rparr>" by simp
    moreover from inv rst have "post_order (entries rstate)" by (auto simp: ran_def)
    ultimately show ?thesis using post_order_preempt[OF _ klt alive st ch] by simp
  next
    case False
    with key rs' have "request_states estate key = Some rs" by simp
    with inv show ?thesis by (auto simp: ran_def)
  qed
qed


lemma ex_climb_root:
  "\<exists>es e1 m1. FinishAndClimb 2 (''r3'', 1) (ex_tree_estate kFinished) ex_models =
      Some (Inr (- 1, ex_tree_request, es, e1, m1)) \<and>
      map status es = [kFinished, kFinished, kFinished]"
  by (simp add: FinishAndClimb_def ex_tree_defs numeral_2_eq_2 Let_def GetRequestState_def
      RemoveRequestStateEntry_def HasSequence_def)




lemma only_releases_refl [simp]: "only_releases estate models estate models"
  by (simp add: only_releases_def list_all2_refl)






lemma length_mark_finished [simp]: "length (mark_finished es ps) = length es"
  by (induction ps arbitrary: es) simp_all

lemma marked_mark_finished: "\<forall>p \<in> set ps. p < length es \<Longrightarrow> marked es (mark_finished es ps)"
proof (induction ps arbitrary: es)
  case Nil
  then show ?case by simp
next
  case (Cons p ps)
  then have "marked es (es[p := (es ! p)\<lparr>status := kFinished\<rparr>])"
    by (simp add: marked_update)
  moreover from Cons have "marked (es[p := (es ! p)\<lparr>status := kFinished\<rparr>])
      (mark_finished (es[p := (es ! p)\<lparr>status := kFinished\<rparr>]) ps)"
    by simp
  ultimately show ?case by (auto intro: marked_trans)
qed


lemma on_chain_bound: "on_chain es start chain stop \<Longrightarrow> p \<in> set chain \<Longrightarrow> p < length es"
proof (induction chain arbitrary: start)
  case Nil
  then show ?case by simp
next
  case (Cons a chain)
  from Cons.prems(1) have a: "a < length es"
    and t: "on_chain es (parent_idx (es ! a)) chain stop" by simp_all
  from Cons.prems(2) consider "p = a" | "p \<in> set chain" by auto
  then show ?case
  proof cases
    case 1
    with a show ?thesis by simp
  next
    case 2
    with Cons.IH[OF t] show ?thesis by simp
  qed
qed

lemma entry_mark:
  "child_indices (es[q := (es ! q)\<lparr>status := s\<rparr>] ! i) = child_indices (es ! i) \<and>
   parent_idx (es[q := (es ! q)\<lparr>status := s\<rparr>] ! i) = parent_idx (es ! i) \<and>
   mstates (es[q := (es ! q)\<lparr>status := s\<rparr>] ! i) = mstates (es ! i) \<and>
   request (es[q := (es ! q)\<lparr>status := s\<rparr>] ! i) = request (es ! i)"
proof (cases "q < length es")
  case True
  then show ?thesis by (cases "i = q") simp_all
next
  case False
  then have "es[q := (es ! q)\<lparr>status := s\<rparr>] = es" by (simp add: list_update_beyond)
  then show ?thesis by simp
qed


lemma mark_finished_entry:
  "child_indices (mark_finished es ps ! i) = child_indices (es ! i) \<and>
   parent_idx (mark_finished es ps ! i) = parent_idx (es ! i) \<and>
   mstates (mark_finished es ps ! i) = mstates (es ! i) \<and>
   request (mark_finished es ps ! i) = request (es ! i)"
proof (induction ps arbitrary: es)
  case Nil
  show ?case by simp
next
  case (Cons p ps)
  from Cons.IH[of "es[p := (es ! p)\<lparr>status := kFinished\<rparr>]"]
    entry_mark[of es p kFinished i]
  show ?case by simp
qed




lemma released_request_states [simp]:
  "released pc0 (estate\<lparr>request_states := x\<rparr>) models e = released pc0 estate models e"
  by (simp add: released_def)

lemma only_releases_request_states [simp]:
  "only_releases estate models (estate'\<lparr>request_states := x\<rparr>) models' =
   only_releases estate models estate' models'"
  "only_releases (estate\<lparr>request_states := x\<rparr>) models estate' models' =
   only_releases estate models estate' models'"
  by (simp_all add: only_releases_def)



lemma states_marked_refl [simp]: "states_marked estate estate"
  by (simp add: states_marked_def)












text \<open>
  C9. One finished entry is processed, the clock reads \<open>clock 0\<close>. When the climb ends
  with \<open>parent_idx = -1\<close>, the request is erased from the running queue and from
  \<open>request_states\<close>, the total prefill time grows by \<open>tprefill_finish - tadd\<close> of the
  root, the total decode time by \<open>clock 0 - tprefill_finish\<close> of the root (nanoseconds,
  as seconds), and \<open>total_decode_length\<close> by the committed tokens of all entries of the
  request on the first model less \<open>n\<close>. When the climb ends elsewhere, the statistics and
  the running queue are as before and the request keeps its state.
\<close>

theorem ProcessFinished_retires_request:
  assumes fc: "FinishAndClimb fuel ref estate models =
                 Some (Inr (parent, req, es, estate1, models1))"
    and res: "ProcessFinishedRequestStateEntries fuel clock [ref] estate models =
                Some (Inr (estate', models'))"
  shows "\<exists>rstate0.
    request_states estate (req_id req) = Some rstate0 \<and>
    (parent = - 1 \<longrightarrow>
       entries rstate0 \<noteq> [] \<and>
       req \<in> set (running_queue estate) \<and>
       running_queue estate' = remove1 req (running_queue estate) \<and>
       request_states estate' (req_id req) = None \<and>
       request_total_prefill_time (stats estate') =
         request_total_prefill_time (stats estate) +
         real_of_int (tprefill_finish (entries rstate0 ! 0) - tadd (entries rstate0 ! 0)) /
           1000000000 \<and>
       request_total_decode_time (stats estate') =
         request_total_decode_time (stats estate) +
         real_of_int (clock 0 - tprefill_finish (entries rstate0 ! 0)) / 1000000000 \<and>
       total_decode_length (stats estate') =
         total_decode_length (stats estate) +
         (\<Sum>e\<leftarrow>entries rstate0. int (length (committed_tokens (mstates e ! 0)))) -
         cfg_n (generation_cfg req)) \<and>
    (parent \<noteq> - 1 \<longrightarrow>
       stats estate' = stats estate \<and>
       running_queue estate' = running_queue estate \<and>
       request_states estate' (req_id req) = Some \<lparr>entries = es\<rparr>)"
proof -
  from FinishAndClimb_Inr[OF fc] obtain holder rstate0 where
    rs0: "request_states estate (req_id req) = Some rstate0"
    and mk: "marked (entries rstate0) es"
    and rs1: "request_states estate1 =
      (request_states estate)
        (fst ref \<mapsto> holder\<lparr>entries :=
           (entries holder)[snd ref := (entries holder ! snd ref)\<lparr>status := kFinished\<rparr>]\<rparr>,
         req_id req \<mapsto> \<lparr>entries = es\<rparr>)"
    and fr: "running_queue estate1 = running_queue estate" "stats estate1 = stats estate"
    by blast
  note mf = marked_fields[OF mk]
  have len: "length es = length (entries rstate0)" using mk by (simp add: marked_def)
  have sum: "(\<Sum>e\<leftarrow>es. int (length (committed_tokens (mstates e ! 0)))) =
     (\<Sum>e\<leftarrow>entries rstate0. int (length (committed_tokens (mstates e ! 0))))"
  proof -
    have "map (\<lambda>e. int (length (committed_tokens (mstates e ! 0)))) es =
      map (\<lambda>ms. int (length (committed_tokens (ms ! 0)))) (map mstates es)" by simp
    also have "\<dots> = map (\<lambda>ms. int (length (committed_tokens (ms ! 0)))) (map mstates (entries rstate0))"
      using mf(1) by simp
    also have "\<dots> = map (\<lambda>e. int (length (committed_tokens (mstates e ! 0)))) (entries rstate0)"
      by simp
    finally show ?thesis by simp
  qed
  have root: "tadd (es ! 0) = tadd (entries rstate0 ! 0)"
    "tprefill_finish (es ! 0) = tprefill_finish (entries rstate0 ! 0)" if "es \<noteq> []"
  proof -
    from that have "0 < length es" by simp
    with len have l: "0 < length es" "0 < length (entries rstate0)" by simp_all
    have "tadd (es ! 0) = map tadd es ! 0" using l by simp
    also have "\<dots> = tadd (entries rstate0 ! 0)" using mf(2) l by simp
    finally show "tadd (es ! 0) = tadd (entries rstate0 ! 0)" .
    have "tprefill_finish (es ! 0) = map tprefill_finish es ! 0" using l by simp
    also have "\<dots> = tprefill_finish (entries rstate0 ! 0)" using mf(3) l by simp
    finally show "tprefill_finish (es ! 0) = tprefill_finish (entries rstate0 ! 0)" .
  qed
  show ?thesis
  proof (cases "parent = - 1")
    case True
    with res fc obtain estate2 where
      rt: "RetireRequest (clock 0) req es estate1 = Inr estate2" and e: "estate' = estate2"
      by (auto simp: ProcessFinished_single split: sum.splits)
    note r = RetireRequest_Inr[OF rt]
    from r have ne: "es \<noteq> []" by simp
    then have "0 < length es" by simp
    with len have ne0: "entries rstate0 \<noteq> []" by auto
    from r e fr rs0 True ne0 sum root[OF ne] show ?thesis by simp
  next
    case False
    with res fc have "estate' = estate1" by (simp add: ProcessFinished_single)
    with fr rs0 rs1 False show ?thesis by simp
  qed
qed


theorem ProcessFinished_retires_request_witness:
  "\<exists>estate' models'.
     ProcessFinishedRequestStateEntries 2 (\<lambda>k. 1000) [(''r3'', 1)] (ex_tree_estate kFinished)
       ex_models = Some (Inr (estate', models')) \<and>
     running_queue (ex_tree_estate kFinished) = [ex_tree_request] \<and>
     running_queue estate' = [] \<and>
     request_states estate' ''r3'' = None \<and>
     request_total_prefill_time (stats estate') = 150 / 1000000000 \<and>
     request_total_decode_time (stats estate') = 750 / 1000000000 \<and>
     total_decode_length (stats estate') = 7"
proof -
  from ex_climb_root obtain es e1 m1 where
    fc: "FinishAndClimb 2 (''r3'', 1) (ex_tree_estate kFinished) ex_models =
      Some (Inr (- 1, ex_tree_request, es, e1, m1))" by auto
  have "\<exists>estate' models'.
     ProcessFinishedRequestStateEntries 2 (\<lambda>k. 1000) [(''r3'', 1)] (ex_tree_estate kFinished)
       ex_models = Some (Inr (estate', models'))"
    by (simp add: FinishAndClimb_def ex_tree_defs numeral_2_eq_2 Let_def GetRequestState_def
      RemoveRequestStateEntry_def HasSequence_def RetireRequest_def)
  then obtain estate' models' where
    res: "ProcessFinishedRequestStateEntries 2 (\<lambda>k. 1000) [(''r3'', 1)] (ex_tree_estate kFinished)
       ex_models = Some (Inr (estate', models'))" by auto
  have rs: "request_states (ex_tree_estate kFinished) (req_id ex_tree_request) =
      Some \<lparr>entries = ex_tree kFinished\<rparr>"
    by (simp add: ex_tree_estate_def ex_tree_request_def)
  from ProcessFinished_retires_request[OF fc res] rs
  have "running_queue estate' = []" "request_states estate' ''r3'' = None"
    "request_total_prefill_time (stats estate') = 150 / 1000000000"
    "request_total_decode_time (stats estate') = 750 / 1000000000"
    "total_decode_length (stats estate') = 7"
    by (simp_all add: ex_tree_defs)
  with res show ?thesis by (simp add: ex_tree_estate_def)
qed

subsection \<open>The stream callback of one step\<close>

lemma distinct_generation_entries:
  "distinct (map (generation_entry n) [0 ..< nat n])"
proof (cases "n = 1")
  case True
  then show ?thesis by (simp add: generation_entry_def)
next
  case False
  then have "generation_entry n = Suc"
    by (auto simp: generation_entry_def)
  then show ?thesis by (simp add: distinct_map)
qed

lemma CollectGroup_Inr:
  assumes "CollectGroup grt ml rid n js (es, ds, ss, rs, flag, fin) =
             Inr (es', ds', ss', rs', flag', fin')"
    and "distinct (map (generation_entry n) js)"
  shows "ds' = ds @ map (\<lambda>i. delta_token_ids (fst (grt ml (es ! generation_entry n i)))) js \<and>
    ss' = ss @ map (\<lambda>i. delta_logprob_json_strs (fst (grt ml (es ! generation_entry n i)))) js \<and>
    rs' = rs @ map (\<lambda>i. finish_reason (fst (grt ml (es ! generation_entry n i)))) js \<and>
    flag' = (flag \<or> (\<exists>i \<in> set js.
              finish_reason (fst (grt ml (es ! generation_entry n i))) \<noteq> None \<or>
              delta_token_ids (fst (grt ml (es ! generation_entry n i))) \<noteq> [])) \<and>
    length es' = length es"
  using assms
proof (induction js arbitrary: es ds ss rs flag fin)
  case Nil
  then show ?case by simp
next
  case (Cons j js)
  let ?k = "generation_entry n j"
  let ?ret = "fst (grt ml (es ! ?k))"
  let ?es1 = "es[?k := snd (grt ml (es ! ?k))]"
  from Cons.prems(1) have inr: "?k < length es"
    by (auto split: if_splits)
  with Cons.prems(1) have rec: "CollectGroup grt ml rid n js
      (?es1, ds @ [delta_token_ids ?ret], ss @ [delta_logprob_json_strs ?ret],
       rs @ [finish_reason ?ret],
       flag \<or> finish_reason ?ret \<noteq> None \<or> delta_token_ids ?ret \<noteq> [],
       fin @ (if finish_reason ?ret \<noteq> None then [(rid, ?k)] else [])) =
      Inr (es', ds', ss', rs', flag', fin')"
    by (simp add: Let_def)
  from Cons.prems(2) have dj: "distinct (map (generation_entry n) js)"
    and nj: "\<forall>i \<in> set js. generation_entry n i \<noteq> ?k" by (auto simp: image_iff)
  have same: "?es1 ! generation_entry n i = es ! generation_entry n i" if "i \<in> set js" for i
    using nj that by (metis nth_list_update_neq)
  note ih = Cons.IH[OF rec dj]
  have m1: "map (\<lambda>i. delta_token_ids (fst (grt ml (?es1 ! generation_entry n i)))) js =
            map (\<lambda>i. delta_token_ids (fst (grt ml (es ! generation_entry n i)))) js"
    by (rule map_cong) (simp_all add: same)
  have m2: "map (\<lambda>i. delta_logprob_json_strs (fst (grt ml (?es1 ! generation_entry n i)))) js =
            map (\<lambda>i. delta_logprob_json_strs (fst (grt ml (es ! generation_entry n i)))) js"
    by (rule map_cong) (simp_all add: same)
  have m3: "map (\<lambda>i. finish_reason (fst (grt ml (?es1 ! generation_entry n i)))) js =
            map (\<lambda>i. finish_reason (fst (grt ml (es ! generation_entry n i)))) js"
    by (rule map_cong) (simp_all add: same)
  have m4: "(\<exists>i \<in> set js.
              finish_reason (fst (grt ml (?es1 ! generation_entry n i))) \<noteq> None \<or>
              delta_token_ids (fst (grt ml (?es1 ! generation_entry n i))) \<noteq> []) =
            (\<exists>i \<in> set js.
              finish_reason (fst (grt ml (es ! generation_entry n i))) \<noteq> None \<or>
              delta_token_ids (fst (grt ml (es ! generation_entry n i))) \<noteq> [])"
    by (rule bex_cong) (simp_all add: same)
  from ih show ?case
    unfolding m1 m2 m3 m4 by auto
qed

lemma CollectRequest_Inr:
  assumes "CollectRequest grt ml req estate = Inr (out, fin, estate1)"
  shows "\<exists>rstate es'.
    request_states estate (req_id req) = Some rstate \<and>
    (case out of None \<Rightarrow> [] | Some output \<Rightarrow> [output]) =
      spec_stream_output grt ml req (entries rstate) \<and>
    estate1 = estate\<lparr>request_states := (request_states estate)(req_id req \<mapsto> \<lparr>entries = es'\<rparr>)\<rparr>"
proof -
  let ?n = "cfg_n (generation_cfg req)"
  from assms obtain rstate where rs: "request_states estate (req_id req) = Some rstate"
    by (auto simp: CollectRequest_def GetRequestState_def split: option.splits)
  from assms rs obtain es' ds ss rs' flag' fin' where
    cg: "CollectGroup grt ml (req_id req) ?n [0 ..< nat ?n] (entries rstate, [], [], [], False, []) =
           Inr (es', ds, ss, rs', flag', fin')"
    by (auto simp: CollectRequest_def GetRequestState_def split: sum.splits)
  note g = CollectGroup_Inr[OF cg distinct_generation_entries]
  have unit: "rstate\<lparr>entries := es'\<rparr> = \<lparr>entries = es'\<rparr>" by simp
  from assms rs cg unit have e1: "estate1 =
      estate\<lparr>request_states := (request_states estate)(req_id req \<mapsto> \<lparr>entries = es'\<rparr>)\<rparr>"
    and out: "out = (if flag' then Some \<lparr>out_request_id = req_id req,
                               group_delta_token_ids = ds,
                               group_delta_logprob_json_strs =
                                 (if logprobs (generation_cfg req) > 0 then Some ss else None),
                               group_finish_reason = rs'\<rparr> else None)"
    by (simp_all add: CollectRequest_def GetRequestState_def)
  have flg: "flag' = list_ex (\<lambda>ret. delta_token_ids ret \<noteq> [] \<or> finish_reason ret \<noteq> None)
           (generation_returns grt ml req (entries rstate))"
    using g by (auto simp: generation_returns_def list_ex_iff)
  have "(case out of None \<Rightarrow> [] | Some output \<Rightarrow> [output]) =
      spec_stream_output grt ml req (entries rstate)"
    using g out flg by (simp add: spec_stream_output_def generation_returns_def comp_def)
  with rs e1 show ?thesis by blast
qed


lemma CountPrefilled_frame:
  "CountPrefilled reqs estate = Inr estate1 \<Longrightarrow>
   request_states estate1 = request_states estate \<and>
   running_queue estate1 = running_queue estate \<and>
   waiting_queue estate1 = waiting_queue estate \<and>
   prefix_cache estate1 = prefix_cache estate \<and>
   id_manager estate1 = id_manager estate"
proof (induction reqs arbitrary: estate)
  case Nil
  then show ?case by simp
next
  case (Cons req reqs)
  from Cons.prems obtain rstate len where
    "CountPrefilled reqs (estate\<lparr>stats := (stats estate)\<lparr>total_prefill_length := len\<rparr>\<rparr>) =
       Inr estate1"
    by (auto split: sum.splits)
  from Cons.IH[OF this] show ?case by simp
qed

lemma UpdatePrefixCache_frame:
  "UpdatePrefixCache reqs estate = Inr estate1 \<Longrightarrow>
   running_queue estate1 = running_queue estate \<and>
   waiting_queue estate1 = waiting_queue estate \<and>
   dom (request_states estate1) = dom (request_states estate) \<and>
   stats estate1 = stats estate \<and>
   id_manager estate1 = id_manager estate"
proof (induction reqs arbitrary: estate)
  case Nil
  then show ?case by simp
next
  case (Cons req reqs)
  from Cons.prems obtain rstate pc1 es1 where
    rs: "request_states estate (req_id req) = Some rstate"
    and rec: "UpdatePrefixCache reqs
       (estate\<lparr>prefix_cache := pc1,
               request_states := (request_states estate)(req_id req \<mapsto> rstate\<lparr>entries := es1\<rparr>)\<rparr>) =
       Inr estate1"
    by (auto simp: GetRequestState_def split: sum.splits option.splits)
  let ?e = "estate\<lparr>prefix_cache := pc1,
               request_states := (request_states estate)(req_id req \<mapsto> rstate\<lparr>entries := es1\<rparr>)\<rparr>"
  from rs have "dom (request_states ?e) = dom (request_states estate)"
    by auto
  moreover have "running_queue ?e = running_queue estate" "waiting_queue ?e = waiting_queue estate"
    "stats ?e = stats estate" "id_manager ?e = id_manager estate" by simp_all
  moreover note Cons.IH[OF rec]
  ultimately show ?case by (elim conjE) (simp only:)
qed

lemma CollectDeltas_Inr:
  assumes "CollectDeltas grt ml reqs estate = Inr (outs, fin, estate')"
    and "distinct (map req_id reqs)"
  shows "outs = concat (map (\<lambda>req.
             case request_states estate (req_id req) of
               None \<Rightarrow> []
             | Some rstate \<Rightarrow> spec_stream_output grt ml req (entries rstate)) reqs) \<and>
    running_queue estate' = running_queue estate \<and>
    waiting_queue estate' = waiting_queue estate \<and>
    dom (request_states estate') = dom (request_states estate) \<and>
    stats estate' = stats estate \<and>
    prefix_cache estate' = prefix_cache estate \<and>
    id_manager estate' = id_manager estate"
  using assms
proof (induction reqs arbitrary: estate outs fin)
  case Nil
  then show ?case by simp
next
  case (Cons req reqs)
  from Cons.prems(1) obtain out f estate1 outs1 f1 where
    one: "CollectRequest grt ml req estate = Inr (out, f, estate1)"
    and rest: "CollectDeltas grt ml reqs estate1 = Inr (outs1, f1, estate')"
    and outs: "outs = (case out of None \<Rightarrow> [] | Some output \<Rightarrow> [output]) @ outs1"
    by (auto split: sum.splits)
  from CollectRequest_Inr[OF one] obtain rstate es' where
    rs: "request_states estate (req_id req) = Some rstate"
    and o: "(case out of None \<Rightarrow> [] | Some output \<Rightarrow> [output]) =
      spec_stream_output grt ml req (entries rstate)"
    and e1: "estate1 = estate\<lparr>request_states :=
               (request_states estate)(req_id req \<mapsto> \<lparr>entries = es'\<rparr>)\<rparr>"
    by blast
  from Cons.prems(2) have d: "distinct (map req_id reqs)"
    and nr: "\<forall>r \<in> set reqs. req_id r \<noteq> req_id req" by (auto simp: image_iff)
  note ih = Cons.IH[OF rest d]
  have m: "map (\<lambda>r. case request_states estate1 (req_id r) of
               None \<Rightarrow> []
             | Some rstate \<Rightarrow> spec_stream_output grt ml r (entries rstate)) reqs =
           map (\<lambda>r. case request_states estate (req_id r) of
               None \<Rightarrow> []
             | Some rstate \<Rightarrow> spec_stream_output grt ml r (entries rstate)) reqs"
    by (rule map_cong) (use nr e1 in auto)
  from rs e1 have dm: "dom (request_states estate1) = dom (request_states estate)"
    by auto
  from e1 have fr: "running_queue estate1 = running_queue estate"
    "waiting_queue estate1 = waiting_queue estate" "stats estate1 = stats estate"
    "prefix_cache estate1 = prefix_cache estate" "id_manager estate1 = id_manager estate"
    by simp_all
  have hd: "outs = spec_stream_output grt ml req (entries rstate) @
      concat (map (\<lambda>r. case request_states estate (req_id r) of
               None \<Rightarrow> []
             | Some rstate \<Rightarrow> spec_stream_output grt ml r (entries rstate)) reqs)"
    using ih outs o unfolding m by simp
  from hd rs have "outs = concat (map (\<lambda>req.
             case request_states estate (req_id req) of
               None \<Rightarrow> []
             | Some rstate \<Rightarrow> spec_stream_output grt ml req (entries rstate)) (req # reqs))"
    by simp
  with ih dm fr show ?case by (elim conjE) (simp only:)
qed

lemma CollectGroup_finished:
  "CollectGroup grt ml rid n js (es, ds, ss, rs, flag, fin) =
     Inr (es', ds', ss', rs', flag', fin') \<Longrightarrow>
   fst ` set fin' \<subseteq> insert rid (fst ` set fin)"
proof (induction js arbitrary: es ds ss rs flag fin)
  case Nil
  then show ?case by auto
next
  case (Cons j js)
  let ?k = "generation_entry n j"
  let ?ret = "fst (grt ml (es ! ?k))"
  from Cons.prems have inr: "?k < length es"
    by (auto split: if_splits)
  with Cons.prems have rec: "CollectGroup grt ml rid n js
      (es[?k := snd (grt ml (es ! ?k))], ds @ [delta_token_ids ?ret],
       ss @ [delta_logprob_json_strs ?ret], rs @ [finish_reason ?ret],
       flag \<or> finish_reason ?ret \<noteq> None \<or> delta_token_ids ?ret \<noteq> [],
       fin @ (if finish_reason ?ret \<noteq> None then [(rid, ?k)] else [])) =
      Inr (es', ds', ss', rs', flag', fin')"
    by (simp add: Let_def)
  from Cons.IH[OF rec] show ?case by auto
qed

lemma CollectRequest_finished:
  assumes "CollectRequest grt ml req estate = Inr (out, fin, estate1)"
  shows "fst ` set fin \<subseteq> {req_id req} \<and> req_id req \<in> dom (request_states estate)"
proof -
  let ?n = "cfg_n (generation_cfg req)"
  from assms obtain rstate where rs: "request_states estate (req_id req) = Some rstate"
    by (auto simp: CollectRequest_def GetRequestState_def split: option.splits)
  from assms rs obtain es' ds ss rs' flag' where
    cg: "CollectGroup grt ml (req_id req) ?n [0 ..< nat ?n] (entries rstate, [], [], [], False, []) =
           Inr (es', ds, ss, rs', flag', fin)"
    by (auto simp: CollectRequest_def GetRequestState_def split: sum.splits)
  from CollectGroup_finished[OF cg] rs show ?thesis by auto
qed

lemma CollectDeltas_finished:
  "CollectDeltas grt ml reqs estate = Inr (outs, fin, estate') \<Longrightarrow>
   fst ` set fin \<subseteq> dom (request_states estate)"
proof (induction reqs arbitrary: estate outs fin)
  case Nil
  then show ?case by simp
next
  case (Cons req reqs)
  from Cons.prems obtain out f estate1 outs1 f1 where
    one: "CollectRequest grt ml req estate = Inr (out, f, estate1)"
    and rest: "CollectDeltas grt ml reqs estate1 = Inr (outs1, f1, estate')"
    and fin: "fin = f @ f1"
    by (auto split: sum.splits)
  from CollectRequest_Inr[OF one] obtain rstate es' where
    rs: "request_states estate (req_id req) = Some rstate"
    and e1: "estate1 = estate\<lparr>request_states :=
               (request_states estate)(req_id req \<mapsto> \<lparr>entries = es'\<rparr>)\<rparr>"
    by blast
  from rs e1 have "dom (request_states estate1) = dom (request_states estate)"
    by auto
  with Cons.IH[OF rest] CollectRequest_finished[OF one] fin show ?case by auto
qed

lemma ex_step:
  "\<exists>e' m'. ActionStepPostProcess ex_grt ex_callback 1 (\<lambda>k. 1000) [ex_request] ex_estate
       ex_models 3 [] =
     ([([\<lparr>out_request_id = ''r1'', group_delta_token_ids = [[7, 8, 9]],
           group_delta_logprob_json_strs = None,
           group_finish_reason = [Some ''length'']\<rparr>],
        [ex_pinned_request, ex_request], [True])],
      Some (Inr (e', m'))) \<and>
     request_states e' ''r1'' = None \<and> running_queue e' = [ex_pinned_request]"
  by (simp add: ActionStepPostProcess_def ex_step_defs GetRequestState_def
      UpdatePrefixCacheEntry_def NotifyPrefilled_def NotifyCommitted_def HasSequence_def
      ExtendSequence_def UncachedCommitted_def CollectRequest_def generation_entry_def
      FinishAndClimb_def RemoveRequestStateEntry_def is_pinned_def RetireRequest_def
      RecycleSequence_def RecycledSlots_def Let_def upt_rec)

text \<open>
  C6. One step over requests with distinct ids; \<open>world'\<close> is the state of the world
  outside the engine after the step and \<open>outcome\<close> what the step leaves of the engine.
  Either a pass before the call of the stream callback has failed, and then the callback
  has not been called; or the callback has been called once, with the batch \<open>outs\<close>, in
  the engine state \<open>estate3\<close> and with the models of the start of the step. The batch
  holds, in the order of the requests, the output of each request one of whose \<open>n\<close>
  generations returned delta tokens or a finish reason, and nothing for the other
  requests; the logprob strings are attached only if \<open>logprobs > 0\<close>. In \<open>estate3\<close>,
  the state in which the callback runs, the running queue and the keys of
  \<open>request_states\<close> are those of the start of the step, and every entry found finished
  belongs to a request that has its state there: nothing has been erased. The finished
  entries are processed from \<open>estate3\<close> on, after the call, and whatever this gives
  (a result, a failure, no end) is the outcome of the step, with the call made.
\<close>

theorem step_fires_callback_once:
  assumes res: "ActionStepPostProcess grt request_stream_callback fuel clock requests estate
                  models max_len world = (world', outcome)"
    and dist: "distinct (map req_id requests)"
  shows "(\<exists>e. world' = world \<and> outcome = Some (Inl e) \<and>
       (CountPrefilled requests estate = Inl e \<or>
        (\<exists>estate1. CountPrefilled requests estate = Inr estate1 \<and>
           (UpdatePrefixCache requests estate1 = Inl e \<or>
            (\<exists>estate2. UpdatePrefixCache requests estate1 = Inr estate2 \<and>
               CollectDeltas grt max_len requests estate2 = Inl e))))) \<or>
    (\<exists>estate1 estate2 estate3 outs finished.
       CountPrefilled requests estate = Inr estate1 \<and>
       UpdatePrefixCache requests estate1 = Inr estate2 \<and>
       CollectDeltas grt max_len requests estate2 = Inr (outs, finished, estate3) \<and>
       world' = request_stream_callback outs estate3 models world \<and>
       outs = concat (map (\<lambda>req.
                case request_states estate2 (req_id req) of
                  None \<Rightarrow> []
                | Some rstate \<Rightarrow> spec_stream_output grt max_len req (entries rstate)) requests) \<and>
       running_queue estate3 = running_queue estate \<and>
       dom (request_states estate3) = dom (request_states estate) \<and>
       fst ` set finished \<subseteq> dom (request_states estate3) \<and>
       outcome = ProcessFinishedRequestStateEntries fuel clock finished estate3 models)"
proof (cases "CountPrefilled requests estate")
  case (Inl e)
  with res show ?thesis by (auto simp: ActionStepPostProcess_def)
next
  case cp: (Inr estate1)
  show ?thesis
  proof (cases "UpdatePrefixCache requests estate1")
    case (Inl e)
    with res cp show ?thesis by (auto simp: ActionStepPostProcess_def)
  next
    case up: (Inr estate2)
    show ?thesis
    proof (cases "CollectDeltas grt max_len requests estate2")
      case (Inl e)
      with res cp up show ?thesis by (auto simp: ActionStepPostProcess_def)
    next
      case (Inr triple)
      then obtain outs finished estate3 where
        cd: "CollectDeltas grt max_len requests estate2 = Inr (outs, finished, estate3)"
        by (cases triple) auto
      from res cp up cd have w: "world' = request_stream_callback outs estate3 models world"
        and oc: "outcome = ProcessFinishedRequestStateEntries fuel clock finished estate3 models"
        by (auto simp: ActionStepPostProcess_def)
      note f1 = CountPrefilled_frame[OF cp]
      note f2 = UpdatePrefixCache_frame[OF up]
      note f3 = CollectDeltas_Inr[OF cd dist]
      from f1 f2 f3 have rq: "running_queue estate3 = running_queue estate"
        and dm: "dom (request_states estate3) = dom (request_states estate)" by simp_all
      from CollectDeltas_finished[OF cd] f3
      have fin: "fst ` set finished \<subseteq> dom (request_states estate3)" by simp
      from f3 have outs: "outs = concat (map (\<lambda>req.
                case request_states estate2 (req_id req) of
                  None \<Rightarrow> []
                | Some rstate \<Rightarrow> spec_stream_output grt max_len req (entries rstate)) requests)"
        by simp
      have "\<exists>estate1 estate2 estate3 outs finished.
       CountPrefilled requests estate = Inr estate1 \<and>
       UpdatePrefixCache requests estate1 = Inr estate2 \<and>
       CollectDeltas grt max_len requests estate2 = Inr (outs, finished, estate3) \<and>
       world' = request_stream_callback outs estate3 models world \<and>
       outs = concat (map (\<lambda>req.
                case request_states estate2 (req_id req) of
                  None \<Rightarrow> []
                | Some rstate \<Rightarrow> spec_stream_output grt max_len req (entries rstate)) requests) \<and>
       running_queue estate3 = running_queue estate \<and>
       dom (request_states estate3) = dom (request_states estate) \<and>
       fst ` set finished \<subseteq> dom (request_states estate3) \<and>
       outcome = ProcessFinishedRequestStateEntries fuel clock finished estate3 models"
        using cp up cd w outs rq dm fin oc by blast
      then show ?thesis by (rule disjI2)
    qed
  qed
qed


theorem step_fires_callback_once_witness:
  "\<exists>e' m' finished e3.
     ActionStepPostProcess ex_grt ex_callback 1 (\<lambda>k. 1000) [ex_request] ex_estate ex_models 3 [] =
       ([([\<lparr>out_request_id = ''r1'', group_delta_token_ids = [[7, 8, 9]],
             group_delta_logprob_json_strs = None,
             group_finish_reason = [Some ''length'']\<rparr>],
          [ex_pinned_request, ex_request], [True])],
        Some (Inr (e', m'))) \<and>
     distinct (map req_id [ex_request]) \<and>
     ProcessFinishedRequestStateEntries 1 (\<lambda>k. 1000) finished e3 ex_models =
       Some (Inr (e', m')) \<and>
     running_queue e3 = [ex_pinned_request, ex_request] \<and>
     ''r1'' \<in> dom (request_states e3) \<and>
     request_states e' ''r1'' = None \<and> running_queue e' = [ex_pinned_request]"
proof -
  let ?out = "\<lparr>out_request_id = ''r1'', group_delta_token_ids = [[7, 8, 9]],
              group_delta_logprob_json_strs = None,
              group_finish_reason = [Some ''length'']\<rparr>"
  from ex_step obtain e' m' where
    res: "ActionStepPostProcess ex_grt ex_callback 1 (\<lambda>k. 1000) [ex_request] ex_estate
            ex_models 3 [] =
       ([([?out], [ex_pinned_request, ex_request], [True])], Some (Inr (e', m')))"
    and after: "request_states e' ''r1'' = None" "running_queue e' = [ex_pinned_request]"
    by auto
  have dist: "distinct (map req_id [ex_request])" by simp
  from step_fires_callback_once[OF res dist] obtain e3 finished where
    pf: "Some (Inr (e', m')) =
       ProcessFinishedRequestStateEntries 1 (\<lambda>k. 1000) finished e3 ex_models"
    and rq: "running_queue e3 = running_queue ex_estate"
    and dm: "dom (request_states e3) = dom (request_states ex_estate)"
    by auto
  from rq have rq': "running_queue e3 = [ex_pinned_request, ex_request]"
    by (simp add: ex_estate_def)
  from dm have dm': "''r1'' \<in> dom (request_states e3)"
    by (simp add: ex_estate_def)
  from res dist pf[symmetric] rq' dm' after show ?thesis by auto
qed


subsection \<open>Blocks of other modalities in the prefilled inputs\<close>

text \<open>
  C7. \<open>UpdatePrefixCache\<close> reads \<open>token_ids\<close> through the result of the cast of every
  block of \<open>prefilled_inputs\<close> and does not test the cast, as the preemption does for the
  last block of the inputs (line 259). For an entry that the prefix cache holds and that
  has prefilled an image block, the read goes through a null pointer.
\<close>

theorem UpdatePrefixCache_image_block:
  "UpdatePrefixCache [ex_request] ex_image_estate = Inl NullDereference"
  by (simp add: ex_step_defs GetRequestState_def UpdatePrefixCacheEntry_def
      NotifyPrefilled_def HasSequence_def)

subsection \<open>Counting the prefilled inputs\<close>

text \<open>
  C8. \<open>prefilled_inputs\<close> is drained by \<open>UpdatePrefixCache\<close> only for an entry whose
  sequence the prefix cache holds. The entry of sequence 5 is not held: it keeps its one
  prefilled block of length 3, and two steps in a row add this length to
  \<open>total_prefill_length\<close> twice.
\<close>

theorem prefill_counted_twice:
  "\<not> HasSequence (prefix_cache ex_estate) 5 \<and>
   map GetLength (prefilled_inputs (ex_mstate 5)) = [3] \<and>
   (\<exists>cb1 e1 m1 cb2 e2 m2.
      ActionStepPostProcess ex_silent_grt ex_callback 1 (\<lambda>k. 1000) [ex_pinned_request]
          ex_estate ex_models 100 [] =
        (cb1, Some (Inr (e1, m1))) \<and>
      total_prefill_length (stats ex_estate) = 0 \<and>
      total_prefill_length (stats e1) = 3 \<and>
      ActionStepPostProcess ex_silent_grt ex_callback 1 (\<lambda>k. 2000) [ex_pinned_request]
          e1 m1 100 cb1 =
        (cb2, Some (Inr (e2, m2))) \<and>
      total_prefill_length (stats e2) = 6)"
  by (simp add: ActionStepPostProcess_def ex_step_defs GetRequestState_def
      UpdatePrefixCacheEntry_def HasSequence_def CollectRequest_def generation_entry_def
      Let_def upt_rec)

end
